theory Spec2Isabelle
  imports Main "HOL-Library.Sublist"
begin

section \<open>The project tree (types.ts)\<close>

text \<open>
  A node of the project tree is the interface \<open>FileNode\<close> of \<open>types.ts\<close>: the fields
  \<open>name\<close>, \<open>type\<close> and \<open>path\<close> are always present, \<open>children\<close> and \<open>content\<close> are
  optional (\<open>None\<close> is JavaScript's \<open>undefined\<close>). Strings are lists of characters; the
  code only compares them, concatenates them, tests prefixes and splits them at \<open>/\<close>.
\<close>

datatype NodeType = File | Folder

datatype FileNode =
  FileNode (name: string) (type: NodeType) (path: string)
           (children: "FileNode list option") (content: "string option")

lemma size_children: "children node = Some cs \<Longrightarrow> size_list size cs < size node"
  by (cases node) auto

lemma size_children_head:
  "children node = Some cs \<Longrightarrow> size_list size cs < Suc (size node + k)"
  using size_children [of node cs] by simp

lemma size_member_children:
  "node \<in> set nodes \<Longrightarrow> children node = Some cs \<Longrightarrow>
   size_list size cs < size_list size nodes"
proof (induction nodes)
  case Nil
  then show ?case by simp
next
  case (Cons a nodes)
  show ?case
  proof (cases "node = a")
    case True
    with Cons.prems size_children [of a cs] show ?thesis by simp
  next
    case False
    with Cons show ?thesis by simp
  qed
qed

section \<open>Tree Store (lib/project-utils)\<close>

text \<open>
  \<open>findFileByPath\<close>: the \<open>for\<close> loop over the siblings, returning the first node whose
  path is the wanted one, and descending into a folder that has a \<open>children\<close> array when the
  wanted path starts with the folder's path followed by a slash. An array is always truthy,
  so \<open>node.children\<close> in the condition is \<open>children node \<noteq> None\<close>.
\<close>

function findFileByPath :: "FileNode list \<Rightarrow> string \<Rightarrow> FileNode option" where
  "findFileByPath [] p = None"
| "findFileByPath (node # nodes) p =
     (if path node = p then Some node
      else if type node = Folder \<and> children node \<noteq> None \<and> prefix (path node @ ''/'') p then
        (case findFileByPath (the (children node)) p of
           Some found \<Rightarrow> Some found
         | None \<Rightarrow> findFileByPath nodes p)
      else findFileByPath nodes p)"
  by pat_completeness auto
termination
  by (relation "measure (\<lambda>(nodes, p). size_list size nodes)")
     (auto simp: size_children_head)

text \<open>
  \<open>deleteNodeByPath\<close>: \<open>filter\<close> drops the siblings with the given path, \<open>map\<close> rebuilds
  (by object spread) every remaining folder on the way to the path with its children
  filtered in the same way.
\<close>

function deleteNodeByPath :: "FileNode list \<Rightarrow> string \<Rightarrow> FileNode list" where
  "deleteNodeByPath nodes p =
     map (\<lambda>node.
            if type node = Folder \<and> children node \<noteq> None \<and> prefix (path node @ ''/'') p
            then FileNode (name node) (type node) (path node)
                   (Some (deleteNodeByPath (the (children node)) p)) (content node)
            else node)
         (filter (\<lambda>node. path node \<noteq> p) nodes)"
  by pat_completeness auto
termination
  by (relation "measure (\<lambda>(nodes, p). size_list size nodes)")
     (auto simp: size_member_children)

declare deleteNodeByPath.simps [simp del]

text \<open>
  \<open>s.split('/')\<close>: the pieces of \<open>s\<close> between the slashes, empty pieces included.
\<close>

primrec split_slash :: "string \<Rightarrow> string list" where
  "split_slash [] = [[]]"
| "split_slash (c # cs) =
     (if c = CHR ''/'' then [] # split_slash cs
      else (case split_slash cs of [] \<Rightarrow> [[c]] | x # xs \<Rightarrow> (c # x) # xs))"

text \<open>\<open>path.split('/').filter(p => p)\<close>: the non-empty segments of a path.\<close>

definition pathParts :: "string \<Rightarrow> string list" where
  "pathParts p = filter (\<lambda>part. part \<noteq> []) (split_slash p)"

text \<open>\<open>Array.prototype.findIndex\<close>, with \<open>None\<close> for -1.\<close>

fun findIndex :: "('a \<Rightarrow> bool) \<Rightarrow> 'a list \<Rightarrow> nat option" where
  "findIndex P [] = None"
| "findIndex P (x # xs) = (if P x then Some 0 else map_option Suc (findIndex P xs))"

text \<open>The assignments \<open>node.content = c\<close> and \<open>node.children = cs\<close>.\<close>

definition set_content :: "FileNode \<Rightarrow> string \<Rightarrow> FileNode" where
  "set_content node c = FileNode (name node) (type node) (path node) (children node) (Some c)"

definition set_children :: "FileNode \<Rightarrow> FileNode list \<Rightarrow> FileNode" where
  "set_children node cs = FileNode (name node) (type node) (path node) (Some cs) (content node)"

text \<open>
  \<open>addOrUpdateFileByPath\<close> works on a deep copy of its argument
  (\<open>JSON.parse(JSON.stringify(nodes))\<close>, the same value in fresh objects) and changes the
  copy in place. \<open>upsertInto\<close> is the \<open>for\<close> loop over the folder names followed by the
  final write: \<open>currentChildren\<close> is the array the loop has reached, \<open>currentPath\<close> the
  path built so far. A folder on the way is the first sibling with that name and type
  \<open>folder\<close>; when there is none, a new folder is pushed at the end. The file is the first
  sibling with the file name, whatever its type; when there is none, a new file node is
  pushed at the end.
\<close>

fun upsertInto :: "string list \<Rightarrow> string \<Rightarrow> string \<Rightarrow> string \<Rightarrow> FileNode list \<Rightarrow> FileNode list" where
  "upsertInto [] fileName newContent currentPath currentChildren =
     (case findIndex (\<lambda>node. name node = fileName) currentChildren of
        Some fileIndex \<Rightarrow>
          currentChildren[fileIndex := set_content (currentChildren ! fileIndex) newContent]
      | None \<Rightarrow>
          currentChildren @
            [FileNode fileName File (currentPath @ ''/'' @ fileName) None (Some newContent)])"
| "upsertInto (part # parts) fileName newContent currentPath currentChildren =
     (let currentPath' = currentPath @ ''/'' @ part
      in case findIndex (\<lambda>node. name node = part \<and> type node = Folder) currentChildren of
           Some i \<Rightarrow>
             (let folder = currentChildren ! i;
                  folderChildren = (case children folder of None \<Rightarrow> [] | Some cs \<Rightarrow> cs)
              in currentChildren
                   [i := set_children folder
                           (upsertInto parts fileName newContent currentPath' folderChildren)])
         | None \<Rightarrow>
             currentChildren @
               [FileNode part Folder currentPath'
                  (Some (upsertInto parts fileName newContent currentPath' [])) None])"

definition addOrUpdateFileByPath :: "FileNode list \<Rightarrow> string \<Rightarrow> string \<Rightarrow> FileNode list" where
  "addOrUpdateFileByPath nodes p newContent =
     (let parts = pathParts p
      in if parts = [] then nodes
         else upsertInto (butlast parts) (last parts) newContent [] nodes)"

text \<open>
  \<open>addNodeToTree\<close> throws \<open>new Error(message)\<close>; an exception is a value. The two
  messages are built as the template strings of the source build them.
\<close>

datatype exn = JsError string | TypeError | SyntaxError | RuntimeError

definition already_exists_message :: "NodeType \<Rightarrow> string \<Rightarrow> string" where
  "already_exists_message ty nodeName =
     (if ty = File then ''File'' else ''Folder'') @ '' with name '' @ [CHR 0x22] @ nodeName
       @ [CHR 0x22] @ '' already exists.''"

definition parent_not_found_message :: "string \<Rightarrow> string" where
  "parent_not_found_message parentPath =
     ''Parent directory '' @ [CHR 0x22] @ parentPath @ [CHR 0x22] @ '' not found.''"

text \<open>
  The object literal of the new node: a folder gets \<open>children: []\<close>, a file gets
  \<open>content: ''\<close>.
\<close>

definition new_node :: "string \<Rightarrow> NodeType \<Rightarrow> string \<Rightarrow> FileNode" where
  "new_node nodeName ty newNodePath =
     FileNode nodeName ty newNodePath
       (if ty = Folder then Some [] else None) (if ty = File then Some [] else None)"

text \<open>
  \<open>addNodeToTree\<close> looks the parent up in the deep copy and pushes the new node onto the
  children of the node found. \<open>modifyFound f nodes p\<close> is the copy with the node that
  \<open>findFileByPath nodes p\<close> returns replaced by \<open>f\<close> of it.
\<close>

function modifyFound :: "(FileNode \<Rightarrow> FileNode) \<Rightarrow> FileNode list \<Rightarrow> string \<Rightarrow> FileNode list" where
  "modifyFound f [] p = []"
| "modifyFound f (node # nodes) p =
     (if path node = p then f node # nodes
      else if type node = Folder \<and> children node \<noteq> None \<and> prefix (path node @ ''/'') p then
        (if findFileByPath (the (children node)) p \<noteq> None
         then set_children node (modifyFound f (the (children node)) p) # nodes
         else node # modifyFound f nodes p)
      else node # modifyFound f nodes p)"
  by pat_completeness auto
termination
  by (relation "measure (\<lambda>(f, nodes, p). size_list size nodes)")
     (auto simp: size_children_head)

definition addNodeToTree ::
  "FileNode list \<Rightarrow> string \<Rightarrow> string \<Rightarrow> NodeType \<Rightarrow> exn + FileNode list" where
  "addNodeToTree nodes parentPath nodeName ty =
     (let newNodePath =
            (if parentPath = ''/'' then ''/'' @ nodeName else parentPath @ ''/'' @ nodeName)
      in if findFileByPath nodes newNodePath \<noteq> None
         then Inl (JsError (already_exists_message ty nodeName))
         else if parentPath = ''/''
         then Inr (nodes @ [new_node nodeName ty newNodePath])
         else (case findFileByPath nodes parentPath of
                 Some parentNode \<Rightarrow>
                   if type parentNode = Folder
                   then Inr (modifyFound
                               (\<lambda>pn. set_children pn
                                  ((case children pn of None \<Rightarrow> [] | Some cs \<Rightarrow> cs)
                                     @ [new_node nodeName ty newNodePath]))
                               nodes parentPath)
                   else Inl (JsError (parent_not_found_message parentPath))
               | None \<Rightarrow> Inl (JsError (parent_not_found_message parentPath))))"

text \<open>
  The siblings that \<open>addNodeToTree\<close> adds to: the root array for the parent path \<open>/\<close>,
  otherwise the children of the folder that the lookup of the parent path returns.
\<close>

definition childrenAt :: "FileNode list \<Rightarrow> string \<Rightarrow> FileNode list option" where
  "childrenAt nodes parentPath =
     (if parentPath = ''/'' then Some nodes
      else (case findFileByPath nodes parentPath of
              Some parentNode \<Rightarrow>
                if type parentNode = Folder
                then Some (case children parentNode of None \<Rightarrow> [] | Some cs \<Rightarrow> cs)
                else None
            | None \<Rightarrow> None))"

definition sibling_exists :: "FileNode list \<Rightarrow> string \<Rightarrow> string \<Rightarrow> bool" where
  "sibling_exists nodes parentPath nodeName \<longleftrightarrow>
     (case childrenAt nodes parentPath of
        None \<Rightarrow> False
      | Some siblings \<Rightarrow> nodeName \<in> name ` set siblings)"

text \<open>
  \<open>formatProjectStructureForAI\<close> builds the text that is sent to the AI service, and on the
  way its inner function \<open>buildString\<close> sorts every array of the tree in place:
  \<open>fileNodes.sort(...)\<close> on the array it is given and, in the \<open>forEach\<close> over the sorted
  array, on the children of every folder that has children. Only this effect on the tree is
  modelled, not the text: \<open>buildString\<close> here returns the array as it is after the call.

  The comparison puts folders before files and orders nodes of one type by
  \<open>a.name.localeCompare(b.name)\<close>, a library function that depends on the locale and is a
  parameter here. \<open>Array.prototype.sort\<close> is stable; for a comparison that is a total
  preorder, as \<open>localeCompare\<close> is, its result is the one of the insertion sort \<open>js_sort\<close>.
\<close>

definition compareNodes :: "(string \<Rightarrow> string \<Rightarrow> int) \<Rightarrow> FileNode \<Rightarrow> FileNode \<Rightarrow> int" where
  "compareNodes localeCompare a b =
     (if type a = type b then localeCompare (name a) (name b)
      else if type a = Folder then - 1 else 1)"

fun js_insert :: "('a \<Rightarrow> 'a \<Rightarrow> int) \<Rightarrow> 'a \<Rightarrow> 'a list \<Rightarrow> 'a list" where
  "js_insert cmp x [] = [x]"
| "js_insert cmp x (y # ys) = (if cmp x y \<le> 0 then x # y # ys else y # js_insert cmp x ys)"

definition js_sort :: "('a \<Rightarrow> 'a \<Rightarrow> int) \<Rightarrow> 'a list \<Rightarrow> 'a list" where
  "js_sort cmp xs = foldr (js_insert cmp) xs []"

lemma set_js_insert: "set (js_insert cmp x ys) = insert x (set ys)"
  by (induction ys) auto

lemma set_js_sort: "set (js_sort cmp xs) = set xs"
  by (induction xs) (simp_all add: js_sort_def set_js_insert)

function buildString :: "(string \<Rightarrow> string \<Rightarrow> int) \<Rightarrow> FileNode list \<Rightarrow> FileNode list" where
  "buildString localeCompare fileNodes =
     map (\<lambda>node. if type node = Folder \<and> children node \<noteq> None
                  then set_children node (buildString localeCompare (the (children node)))
                  else node)
         (js_sort (compareNodes localeCompare) fileNodes)"
  by pat_completeness auto
termination
  by (relation "measure (\<lambda>(localeCompare, fileNodes). size_list size fileNodes)")
     (auto simp: set_js_sort size_member_children)

declare buildString.simps [simp del]

text \<open>A node object after the sort: its children array, and those below, are sorted.\<close>

definition sorted_node :: "(string \<Rightarrow> string \<Rightarrow> int) \<Rightarrow> FileNode \<Rightarrow> FileNode" where
  "sorted_node localeCompare node =
     (if type node = Folder \<and> children node \<noteq> None
      then set_children node (buildString localeCompare (the (children node)))
      else node)"

section \<open>The invariants of the data model\<close>

text \<open>
  The path that a list of segments denotes, and the canonical paths: those that are the
  join of their own non-empty segments (rooted at a slash, no empty segment, no slash at
  the end).
\<close>

definition join_path :: "string list \<Rightarrow> string" where
  "join_path segs = concat (map (\<lambda>seg. ''/'' @ seg) segs)"


text \<open>
  The invariants of a tree: sibling names are distinct and contain no slash, and the path
  of a node is the path of its parent, a slash, and its name.
\<close>

function wf_nodes :: "string \<Rightarrow> FileNode list \<Rightarrow> bool" where
  "wf_nodes parent nodes \<longleftrightarrow>
     distinct (map name nodes) \<and>
     (\<forall>node \<in> set nodes.
        path node = parent @ ''/'' @ name node \<and>
        CHR ''/'' \<notin> set (name node) \<and>
        (case children node of None \<Rightarrow> True | Some cs \<Rightarrow> wf_nodes (path node) cs))"
  by pat_completeness auto
termination
  by (relation "measure (\<lambda>(parent, nodes). size_list size nodes)")
     (auto simp: size_member_children)

declare wf_nodes.simps [simp del]

definition wf_tree :: "FileNode list \<Rightarrow> bool" where
  "wf_tree nodes \<longleftrightarrow> wf_nodes [] nodes"


section \<open>History Manager (components/IDEView.tsx)\<close>

text \<open>
  The component state the history operations read and write. \<open>historyIndex\<close> is a
  JavaScript number and can become negative, so it is an \<open>int\<close>; \<open>history[i]\<close> outside
  the array is \<open>undefined\<close>, so the live tree \<open>projectStructure\<close> is an option.
\<close>

datatype ToastType = Success | Error | Info | Warning

datatype fs_op =
  FsRm string
| FsMkdir string
| FsWriteFile string string

record ide_state =
  projectStructure :: "FileNode list option"
  history :: "FileNode list list"
  historyIndex :: int
  isLoadingAI :: bool
  aiMessage :: string
  toasts :: "(string \<times> ToastType) list"
  nodesToDelete :: "FileNode list option"
  hasUnsavedChanges :: bool
  webContainer :: "fs_op list option"
  openFiles :: "FileNode list"
  activeFilePath :: "string option"
  selectedNodePaths :: "string list"

text \<open>\<open>xs[i]\<close> of JavaScript: \<open>undefined\<close> outside \<open>0 .. length - 1\<close>.\<close>

definition js_index :: "'a list \<Rightarrow> int \<Rightarrow> 'a option" where
  "js_index xs i = (if 0 \<le> i \<and> i < int (length xs) then Some (xs ! nat i) else None)"

text \<open>
  \<open>xs.slice(0, e)\<close> of JavaScript: a negative end counts from the end of the array, and the
  end is clamped to \<open>0 .. length\<close>.
\<close>

definition js_slice0 :: "'a list \<Rightarrow> int \<Rightarrow> 'a list" where
  "js_slice0 xs e =
     (let len = int (length xs);
          final = (if e < 0 then max (len + e) 0 else min e len)
      in take (nat final) xs)"

text \<open>The state of a freshly mounted \<open>IDEView\<close> for a project with the given tree.\<close>

definition initial_state :: "FileNode list \<Rightarrow> ide_state" where
  "initial_state structure =
     \<lparr> projectStructure = Some structure,
       history = [structure],
       historyIndex = 0,
       isLoadingAI = False,
       aiMessage = ''Hello! I'm your AI code assistant. What should we build or change today?'',
       toasts = [],
       nodesToDelete = None,
       hasUnsavedChanges = False,
       webContainer = None,
       openFiles = [],
       activeFilePath = None,
       selectedNodePaths = [] \<rparr>"

definition pushHistory :: "FileNode list \<Rightarrow> ide_state \<Rightarrow> ide_state" where
  "pushHistory newStructure s =
     (let newHistory = js_slice0 (history s) (historyIndex s + 1) @ [newStructure]
      in s\<lparr> history := newHistory,
            historyIndex := int (length newHistory) - 1,
            projectStructure := Some newStructure \<rparr>)"

definition handleUndo :: "ide_state \<Rightarrow> ide_state" where
  "handleUndo s =
     (if historyIndex s \<le> 0 then s
      else let newIndex = historyIndex s - 1
           in s\<lparr> historyIndex := newIndex,
                 projectStructure := js_index (history s) newIndex \<rparr>)"

definition handleRedo :: "ide_state \<Rightarrow> ide_state" where
  "handleRedo s =
     (if historyIndex s \<ge> int (length (history s)) - 1 then s
      else let newIndex = historyIndex s - 1
           in s\<lparr> historyIndex := newIndex,
                 projectStructure := js_index (history s) newIndex \<rparr>)"

text \<open>
  The correspondence between the live tree and the log: the cursor is an index of the log
  and the live tree is the snapshot there.
\<close>

definition history_consistent :: "ide_state \<Rightarrow> bool" where
  "history_consistent s \<longleftrightarrow>
     0 \<le> historyIndex s \<and> historyIndex s < int (length (history s)) \<and>
     projectStructure s = Some (history s ! nat (historyIndex s))"

section \<open>Mutation Dispatcher and AI batch edits (components/IDEView.tsx, lib/ai.ts)\<close>

text \<open>
  The response of the AI service (\<open>AiResponse\<close> of \<open>lib/ai.ts\<close>): a summary and two
  optional lists of files, each file a path and a content.
\<close>

record ai_file =
  ai_path :: string
  ai_content :: string

record AiResponse =
  summary :: string
  filesToUpdate :: "ai_file list option"
  filesToDelete :: "ai_file list option"

text \<open>
  A handler either returns or throws; in both cases the state changes made so far stay.
\<close>

datatype 'a outcome = Returned 'a ide_state | Thrown exn ide_state

definition addToast :: "string \<Rightarrow> ToastType \<Rightarrow> ide_state \<Rightarrow> ide_state" where
  "addToast message ty s = s\<lparr> toasts := toasts s @ [(message, ty)] \<rparr>"

text \<open>
  The sandboxed runtime is seen through the calls made to its file system: when the
  container has booted (\<open>webContainer\<close> is not \<open>None\<close>), a call is appended to its log.
  Whether the runtime rejects a call is not decided by the program: the handlers take the
  predicate \<open>rejects\<close> as a parameter.
\<close>

definition wc_log :: "fs_op \<Rightarrow> ide_state \<Rightarrow> ide_state" where
  "wc_log call s = s\<lparr> webContainer := map_option (\<lambda>calls. calls @ [call]) (webContainer s) \<rparr>"

text \<open>
  \<open>summary.split(/(\s+)/)\<close>: the summary cut into words and the runs of white space
  between them, both kept; the pieces are appended to the message one by one.
\<close>

definition js_whitespace :: "char \<Rightarrow> bool" where
  "js_whitespace c \<longleftrightarrow> c \<in> {CHR 0x09, CHR 0x0A, CHR 0x0B, CHR 0x0C, CHR 0x0D, CHR '' ''}"

lemma drop_spaces_shorter:
  assumes "dropWhile (\<lambda>c. \<not> js_whitespace c) s \<noteq> []"
  shows "length (dropWhile js_whitespace (dropWhile (\<lambda>c. \<not> js_whitespace c) s)) < length s"
proof -
  define rest where "rest = dropWhile (\<lambda>c. \<not> js_whitespace c) s"
  from assms have ne: "rest \<noteq> []" by (simp add: rest_def)
  then have "\<not> \<not> js_whitespace (hd rest)" unfolding rest_def by (rule hd_dropWhile)
  then have h: "js_whitespace (hd rest)" by blast
  from ne obtain c cs where cs: "rest = c # cs" by (cases rest) auto
  with h have "dropWhile js_whitespace rest = dropWhile js_whitespace cs" by simp
  moreover have "length (dropWhile js_whitespace cs) \<le> length cs" by (rule length_dropWhile_le)
  ultimately have "length (dropWhile js_whitespace rest) < length rest" using cs by simp
  also have "length rest \<le> length s" unfolding rest_def by (rule length_dropWhile_le)
  finally show ?thesis unfolding rest_def .
qed

function split_spaces :: "string \<Rightarrow> string list" where
  "split_spaces s =
     (let word = takeWhile (\<lambda>c. \<not> js_whitespace c) s;
          rest = dropWhile (\<lambda>c. \<not> js_whitespace c) s
      in if rest = [] then [word]
         else word # takeWhile js_whitespace rest # split_spaces (dropWhile js_whitespace rest))"
  by pat_completeness auto
termination
  by (relation "measure length") (auto simp: drop_spaces_shorter)

declare split_spaces.simps [simp del]

text \<open>\<open>p.substring(0, p.lastIndexOf('/'))\<close>: empty when \<open>p\<close> has no slash.\<close>

definition parent_dir :: "string \<Rightarrow> string" where
  "parent_dir p = rev (tl (dropWhile (\<lambda>c. c \<noteq> CHR ''/'') (rev p)))"


text \<open>
  The two loops of \<open>applyAiChanges\<close>. A failing \<open>fs.rm\<close> is caught and ignored; a
  rejected \<open>fs.mkdir\<close> or \<open>fs.writeFile\<close> is not caught and ends the function.
\<close>

fun deleteLoop :: "ai_file list \<Rightarrow> FileNode list \<Rightarrow> ide_state \<Rightarrow> FileNode list \<times> ide_state" where
  "deleteLoop [] finalStructure s = (finalStructure, s)"
| "deleteLoop (file # files) finalStructure s =
     deleteLoop files (deleteNodeByPath finalStructure (ai_path file))
       (wc_log (FsRm (ai_path file)) s)"

definition mirrorUpdate :: "(fs_op \<Rightarrow> bool) \<Rightarrow> ai_file \<Rightarrow> ide_state \<Rightarrow> unit outcome" where
  "mirrorUpdate rejects fileToUpdate s =
     (if webContainer s = None then Returned () s
      else let parentDir = parent_dir (ai_path fileToUpdate);
               s1 = (if parentDir \<noteq> [] then wc_log (FsMkdir parentDir) s else s)
           in if parentDir \<noteq> [] \<and> rejects (FsMkdir parentDir) then Thrown RuntimeError s1
              else let write = FsWriteFile (ai_path fileToUpdate) (ai_content fileToUpdate);
                       s2 = wc_log write s1
                   in if rejects write then Thrown RuntimeError s2 else Returned () s2)"

fun updateLoop ::
  "(fs_op \<Rightarrow> bool) \<Rightarrow> ai_file list \<Rightarrow> FileNode list \<Rightarrow> ide_state \<Rightarrow> (FileNode list) outcome" where
  "updateLoop rejects [] finalStructure s = Returned finalStructure s"
| "updateLoop rejects (fileToUpdate # files) finalStructure s =
     (case mirrorUpdate rejects fileToUpdate s of
        Thrown e s' \<Rightarrow> Thrown e s'
      | Returned _ s' \<Rightarrow>
          updateLoop rejects files
            (addOrUpdateFileByPath finalStructure (ai_path fileToUpdate) (ai_content fileToUpdate))
            s')"

text \<open>
  \<open>handleOpenFile\<close> looks the path up in the tree of the render in which the handler was
  created, which is passed as \<open>structure\<close>.
\<close>

definition handleOpenFile :: "FileNode list \<Rightarrow> string \<Rightarrow> ide_state \<Rightarrow> ide_state" where
  "handleOpenFile structure p s =
     (case findFileByPath structure p of
        None \<Rightarrow> s
      | Some file \<Rightarrow>
          if type file = File
          then s\<lparr> openFiles := (if \<exists>f \<in> set (openFiles s). path f = p then openFiles s
                                else openFiles s @ [file]),
                  activeFilePath := Some p,
                  selectedNodePaths := [p] \<rparr>
          else s)"

text \<open>
  \<open>hasDeletions\<close> and \<open>hasUpdates\<close> of the source say that the list is present and not
  empty; here an absent list is the empty list.
\<close>

definition response_deletions :: "AiResponse \<Rightarrow> ai_file list" where
  "response_deletions response = (case filesToDelete response of None \<Rightarrow> [] | Some files \<Rightarrow> files)"

definition response_updates :: "AiResponse \<Rightarrow> ai_file list" where
  "response_updates response = (case filesToUpdate response of None \<Rightarrow> [] | Some files \<Rightarrow> files)"

text \<open>
  \<open>applyAiChanges\<close>. With an undefined live tree the first \<open>deleteNodeByPath\<close> throws
  a TypeError, and \<open>addOrUpdateFileByPath\<close> a SyntaxError (from \<open>JSON.parse\<close>) after
  the runtime calls of the first update.
\<close>

definition applyAiChanges :: "(fs_op \<Rightarrow> bool) \<Rightarrow> AiResponse \<Rightarrow> ide_state \<Rightarrow> unit outcome" where
  "applyAiChanges rejects response s =
     (let s1 = s\<lparr> aiMessage := foldl (@) [] (split_spaces (summary response)) \<rparr>;
          deletions = response_deletions response;
          updates = response_updates response
      in if deletions = [] \<and> updates = [] then Returned () s1
         else (case projectStructure s of
                 None \<Rightarrow>
                   if deletions \<noteq> [] then Thrown TypeError s1
                   else (case mirrorUpdate rejects (hd updates) s1 of
                           Thrown e s' \<Rightarrow> Thrown e s'
                         | Returned _ s' \<Rightarrow> Thrown SyntaxError s')
               | Some structure \<Rightarrow>
                   (case deleteLoop deletions structure s1 of
                      (afterDeletions, s2) \<Rightarrow>
                        (case updateLoop rejects updates afterDeletions s2 of
                           Thrown e s' \<Rightarrow> Thrown e s'
                         | Returned finalStructure s3 \<Rightarrow>
                             Returned ()
                               ((addToast ''AI changes applied successfully!'' Success
                                   (fold (\<lambda>file. handleOpenFile structure (ai_path file)) updates
                                      (pushHistory finalStructure s3)))
                                \<lparr> hasUnsavedChanges := True \<rparr>)))))"

text \<open>
  \<open>generateCodeFromPrompt\<close> (\<open>lib/ai.ts\<close>). Without an API key it returns a fixed summary.
  With one it calls \<open>formatProjectStructureForAI\<close> on the live tree, which sorts the arrays
  of that tree in place (and throws a TypeError on an undefined tree), and then returns
  what the AI service answers; the answer is the parameter \<open>answer\<close> (\<open>None\<close> for \<open>null\<close>),
  the text sent to the service is not part of the model.

  The state of this model holds tree values, not references, so the sort is applied to
  every component that holds the sorted arrays: the live tree; the snapshot at the cursor
  of the log, which is the same array as the live tree (\<open>pushHistory\<close>, \<open>handleUndo\<close>,
  \<open>handleRedo\<close> and the initial state set the two from one reference); and the nodes of a
  pending deletion, which \<open>handleRequestDelete\<close> took from the live tree. That two
  components hold the same object is read as: they hold the same value at the same place.
  Among the handlers of this model, the other snapshots of the log share arrays with the
  live tree only where \<open>deleteNodeByPath\<close> kept nodes of a tree that this sort had sorted
  just before (\<open>addOrUpdateFileByPath\<close> copies everything); sorting those again leaves them
  as they are.
\<close>

definition formatProjectStructureForAI ::
  "(string \<Rightarrow> string \<Rightarrow> int) \<Rightarrow> ide_state \<Rightarrow> unit outcome" where
  "formatProjectStructureForAI localeCompare s =
     (case projectStructure s of
        None \<Rightarrow> Thrown TypeError s
      | Some structure \<Rightarrow>
          Returned ()
            (s\<lparr> projectStructure := Some (buildString localeCompare structure),
                history :=
                  (if js_index (history s) (historyIndex s) = Some structure
                   then (history s)[nat (historyIndex s) := buildString localeCompare structure]
                   else history s),
                nodesToDelete :=
                  map_option
                    (map (\<lambda>node. if findFileByPath structure (path node) = Some node
                                 then sorted_node localeCompare node else node))
                    (nodesToDelete s) \<rparr>))"

definition generateCodeFromPrompt ::
  "(string \<Rightarrow> string \<Rightarrow> int) \<Rightarrow> bool \<Rightarrow> AiResponse option \<Rightarrow> ide_state
   \<Rightarrow> (AiResponse option) outcome" where
  "generateCodeFromPrompt localeCompare apiKey answer s =
     (if \<not> apiKey
      then Returned
             (Some \<lparr> summary = ''Error: API key is not configured. Please set the VITE_API_KEY environment variable.'',
                     filesToUpdate = None, filesToDelete = None \<rparr>) s
      else (case formatProjectStructureForAI localeCompare s of
              Thrown e s' \<Rightarrow> Thrown e s'
            | Returned _ s' \<Rightarrow> Returned answer s'))"

text \<open>
  \<open>handleSendPrompt\<close>. With an undefined live tree \<open>findMentionedFiles\<close> throws a
  TypeError before the service is called. Nothing in the handler catches: what
  \<open>generateCodeFromPrompt\<close> or \<open>applyAiChanges\<close> throws leaves \<open>isLoadingAI\<close> set.
\<close>

definition handleSendPrompt ::
  "(string \<Rightarrow> string \<Rightarrow> int) \<Rightarrow> bool \<Rightarrow> (fs_op \<Rightarrow> bool) \<Rightarrow> AiResponse option
   \<Rightarrow> string \<Rightarrow> string list \<Rightarrow> ide_state \<Rightarrow> unit outcome" where
  "handleSendPrompt localeCompare apiKey rejects answer prompt attachments s =
     (if (prompt = [] \<and> attachments = []) \<or> isLoadingAI s then Returned () s
      else let s1 = s\<lparr> isLoadingAI := True,
                       aiMessage := ''Thinking... I'm analyzing the project and your request.'' \<rparr>
           in if projectStructure s = None then Thrown TypeError s1
              else (case generateCodeFromPrompt localeCompare apiKey answer s1 of
                      Thrown e s2 \<Rightarrow> Thrown e s2
                    | Returned aiResponse s2 \<Rightarrow>
                        (case aiResponse of
                           Some response \<Rightarrow>
                             (case applyAiChanges rejects response s2 of
                                Thrown e s3 \<Rightarrow> Thrown e s3
                              | Returned _ s3 \<Rightarrow> Returned () (s3\<lparr> isLoadingAI := False \<rparr>))
                         | None \<Rightarrow>
                             Returned ()
                               ((addToast ''AI request failed.'' Error
                                   (s2\<lparr> aiMessage := ''Sorry, I encountered an error and couldn't process your request. Please check the console for details and try again.'' \<rparr>))
                                \<lparr> isLoadingAI := False \<rparr>))))"














definition same_log :: "ide_state \<Rightarrow> ide_state \<Rightarrow> bool" where
  "same_log s s' \<longleftrightarrow>
     history s' = history s \<and> historyIndex s' = historyIndex s \<and> aiMessage s' = aiMessage s
     \<and> (webContainer s' = None \<longleftrightarrow> webContainer s = None)"

section \<open>Search (lib/project-utils)\<close>

text \<open>
  The options of a search, and its results: for each file with a match, the matching lines
  with their number, text and match ranges (start, length).
\<close>

record search_options =
  isCaseSensitive :: bool
  isRegex :: bool
  isWholeWord :: bool

record SearchMatch =
  lineNumber :: nat
  lineContent :: string
  matchRanges :: "(nat \<times> nat) list"

record SearchResult =
  resultPath :: string
  matches :: "SearchMatch list"

text \<open>
  \<open>query.replace(/[-\/\\^$*+?.()|[\]{}]/g, '\\$&')\<close>: a backslash is put before each
  character of the class.
\<close>

definition regex_special :: "char list" where
  "regex_special =
     [CHR ''-'', CHR ''/'', CHR 0x5C, CHR ''^'', CHR ''$'', CHR ''*'', CHR ''+'', CHR ''?'',
      CHR ''.'', CHR ''('', CHR '')'', CHR ''|'', CHR ''['', CHR '']'', CHR ''{'', CHR ''}'']"

definition escapeRegExp :: "string \<Rightarrow> string" where
  "escapeRegExp query =
     concat (map (\<lambda>c. if c \<in> set regex_special then [CHR 0x5C, c] else [c]) query)"

definition search_pattern :: "string \<Rightarrow> search_options \<Rightarrow> string" where
  "search_pattern query options =
     (let pattern = (if isRegex options then query else escapeRegExp query)
      in if \<not> isRegex options \<and> isWholeWord options
         then [CHR 0x5C, CHR ''b''] @ pattern @ [CHR 0x5C, CHR ''b'']
         else pattern)"

definition search_flags :: "search_options \<Rightarrow> string" where
  "search_flags options = (if isCaseSensitive options then ''g'' else ''gi'')"

text \<open>\<open>s.split(sep)\<close> for a separator of one character.\<close>

primrec split_on :: "char \<Rightarrow> string \<Rightarrow> string list" where
  "split_on sep [] = [[]]"
| "split_on sep (c # cs) =
     (if c = sep then [] # split_on sep cs
      else (case split_on sep cs of [] \<Rightarrow> [[c]] | x # xs \<Rightarrow> (c # x) # xs))"

text \<open>
  The regular-expression engine is outside the program: \<open>compile pattern flags\<close> is
  \<open>new RegExp(pattern, flags)\<close>, \<open>None\<close> when it throws a SyntaxError, and
  \<open>exec regex line lastIndex\<close> is one call of \<open>regex.exec(line)\<close>, the start and length
  of the next match at or after \<open>lastIndex\<close>. The \<open>while\<close> loop over the matches of a
  line moves \<open>lastIndex\<close> to the end of each match; it runs on fuel, \<open>None\<close> meaning
  that it has not ended.
\<close>

fun scan_line ::
  "('re \<Rightarrow> string \<Rightarrow> nat \<Rightarrow> (nat \<times> nat) option) \<Rightarrow> nat \<Rightarrow> 're \<Rightarrow> bool \<Rightarrow> string \<Rightarrow> nat
   \<Rightarrow> (nat \<times> nat) list option" where
  "scan_line exec 0 regex global line lastIndex = None"
| "scan_line exec (Suc fuel) regex global line lastIndex =
     (case exec regex line lastIndex of
        None \<Rightarrow> Some []
      | Some (index, len) \<Rightarrow>
          if \<not> global then Some [(index, len)]
          else map_option ((#) (index, len))
                 (scan_line exec fuel regex global line (index + len)))"

definition search_lines ::
  "('re \<Rightarrow> string \<Rightarrow> nat \<Rightarrow> (nat \<times> nat) option) \<Rightarrow> nat \<Rightarrow> 're \<Rightarrow> bool \<Rightarrow> string
   \<Rightarrow> SearchMatch list option" where
  "search_lines exec fuel regex global text =
     map_option
       (\<lambda>scanned.
          map (\<lambda>(index, line, lineMatches).
                 \<lparr> lineNumber = index + 1, lineContent = line, matchRanges = lineMatches \<rparr>)
            (filter (\<lambda>(index, line, lineMatches). lineMatches \<noteq> []) scanned))
       (those
          (map (\<lambda>(index, line).
                  map_option (\<lambda>lineMatches. (index, line, lineMatches))
                    (scan_line exec fuel regex global line 0))
             (enumerate 0 (split_on (CHR 0x0A) text))))"

lemma size_child:
  "children node = Some cs \<Longrightarrow> child \<in> set cs \<Longrightarrow> size child < size node"
proof -
  assume c: "children node = Some cs" and m: "child \<in> set cs"
  from m have "size child \<le> size_list size cs" by (induction cs) auto
  with size_children [OF c] show ?thesis by simp
qed

function searchInNode ::
  "('re \<Rightarrow> string \<Rightarrow> nat \<Rightarrow> (nat \<times> nat) option) \<Rightarrow> nat \<Rightarrow> 're \<Rightarrow> bool \<Rightarrow> FileNode
   \<Rightarrow> SearchResult list option" where
  "searchInNode exec fuel regex global node =
     (if type node = File \<and> content node \<noteq> None then
        map_option
          (\<lambda>found. if found \<noteq> [] then [\<lparr> resultPath = path node, matches = found \<rparr>] else [])
          (search_lines exec fuel regex global (the (content node)))
      else if type node = Folder \<and> children node \<noteq> None then
        map_option concat
          (those (map (searchInNode exec fuel regex global) (the (children node))))
      else Some [])"
  by pat_completeness auto
termination
  by (relation "measure (\<lambda>(exec, fuel, regex, global, node). size node)")
     (auto simp: size_child)

declare searchInNode.simps [simp del]

definition searchInProject ::
  "(string \<Rightarrow> string \<Rightarrow> 're option) \<Rightarrow> ('re \<Rightarrow> string \<Rightarrow> nat \<Rightarrow> (nat \<times> nat) option) \<Rightarrow> nat
   \<Rightarrow> FileNode list \<Rightarrow> string \<Rightarrow> search_options \<Rightarrow> SearchResult list option" where
  "searchInProject compile exec fuel nodes query options =
     (if query = [] then Some []
      else (case compile (search_pattern query options) (search_flags options) of
              None \<Rightarrow> Some []
            | Some regex \<Rightarrow>
                map_option concat
                  (those (map (searchInNode exec fuel regex
                                 (CHR ''g'' \<in> set (search_flags options))) nodes))))"

text \<open>
  A pattern without metacharacter: every character of the class stands after a backslash
  that escapes it. \<open>unescape\<close> removes the escaping backslashes.
\<close>

fun regex_literal :: "string \<Rightarrow> bool" where
  "regex_literal [] = True"
| "regex_literal [c] = (c \<notin> set regex_special)"
| "regex_literal (c # d # cs) =
     (if c = CHR 0x5C then d \<in> set regex_special \<and> regex_literal cs
      else c \<notin> set regex_special \<and> regex_literal (d # cs))"

fun unescape :: "string \<Rightarrow> string" where
  "unescape [] = []"
| "unescape [c] = [c]"
| "unescape (c # d # cs) = (if c = CHR 0x5C then d # unescape cs else c # unescape (d # cs))"

section \<open>Tree Store over an object store (lib/project-utils)\<close>

text \<open>
  The functions of the Tree Store once more, this time with the JavaScript objects and
  arrays they work on made explicit, so that a write through one reference is seen through
  every other reference to the same object. A node object keeps its children as a reference
  to an array, an array is a list of references to node objects. The store holds all objects
  and all arrays; a reference is an index into it, an allocation appends, an assignment to a
  field or an array element updates in place.
\<close>

record node_obj =
  o_name :: string
  o_type :: NodeType
  o_path :: string
  o_children :: "nat option"
  o_content :: "string option"

record heap =
  objs :: "node_obj list"
  arrs :: "nat list list"

definition obj_at :: "heap \<Rightarrow> nat \<Rightarrow> node_obj option" where
  "obj_at h x = (if x < length (objs h) then Some (objs h ! x) else None)"

definition arr_at :: "heap \<Rightarrow> nat \<Rightarrow> nat list option" where
  "arr_at h a = (if a < length (arrs h) then Some (arrs h ! a) else None)"

definition new_obj :: "node_obj \<Rightarrow> heap \<Rightarrow> heap \<times> nat" where
  "new_obj ob h = (h\<lparr> objs := objs h @ [ob] \<rparr>, length (objs h))"

definition new_arr :: "nat list \<Rightarrow> heap \<Rightarrow> heap \<times> nat" where
  "new_arr xs h = (h\<lparr> arrs := arrs h @ [xs] \<rparr>, length (arrs h))"

definition set_obj :: "nat \<Rightarrow> node_obj \<Rightarrow> heap \<Rightarrow> heap" where
  "set_obj x ob h = h\<lparr> objs := (objs h)[x := ob] \<rparr>"

definition set_arr :: "nat \<Rightarrow> nat list \<Rightarrow> heap \<Rightarrow> heap" where
  "set_arr a xs h = h\<lparr> arrs := (arrs h)[a := xs] \<rparr>"

text \<open>
  \<open>heap_le h h'\<close>: every object and every array of \<open>h\<close> is in \<open>h'\<close> as it was; \<open>h'\<close> may hold
  more.
\<close>

definition heap_le :: "heap \<Rightarrow> heap \<Rightarrow> bool" where
  "heap_le h h' \<longleftrightarrow> prefix (objs h) (objs h') \<and> prefix (arrs h) (arrs h')"

text \<open>
  The tree value that a reference to an array denotes: \<open>read_nodes k h a\<close> follows the
  references from the array \<open>a\<close> down to depth \<open>k\<close>. It is \<open>None\<close> for a dangling reference
  and for a structure deeper than \<open>k\<close> (a cyclic one is deeper than every \<open>k\<close>).
  \<open>JSON.parse(JSON.stringify(nodes))\<close> is \<open>read_nodes\<close> followed by \<open>alloc_nodes\<close>, which
  builds the value from fresh objects and arrays.
\<close>

fun read_list :: "nat \<Rightarrow> heap \<Rightarrow> nat list \<Rightarrow> FileNode list option" where
  "read_list 0 h xs = None"
| "read_list (Suc k) h [] = Some []"
| "read_list (Suc k) h (x # xs) =
     (case obj_at h x of
        None \<Rightarrow> None
      | Some ob \<Rightarrow>
          (case (case o_children ob of
                   None \<Rightarrow> Some None
                 | Some c \<Rightarrow>
                     (case arr_at h c of
                        None \<Rightarrow> None
                      | Some cs \<Rightarrow> map_option Some (read_list k h cs))) of
             None \<Rightarrow> None
           | Some ch \<Rightarrow>
               map_option
                 ((#) (FileNode (o_name ob) (o_type ob) (o_path ob) ch (o_content ob)))
                 (read_list (Suc k) h xs)))"

definition read_nodes :: "nat \<Rightarrow> heap \<Rightarrow> nat \<Rightarrow> FileNode list option" where
  "read_nodes k h a = (case arr_at h a of None \<Rightarrow> None | Some xs \<Rightarrow> read_list k h xs)"

fun alloc_list :: "FileNode list \<Rightarrow> heap \<Rightarrow> heap \<times> nat list" where
  "alloc_list [] h = (h, [])"
| "alloc_list (FileNode nm ty pa ch co # rest) h =
     (let (h1, cref) =
            (case ch of
               None \<Rightarrow> (h, None)
             | Some cs \<Rightarrow>
                 (let (h', xs) = alloc_list cs h;
                      (h'', c) = new_arr xs h'
                  in (h'', Some c)));
          (h2, x) = new_obj \<lparr> o_name = nm, o_type = ty, o_path = pa, o_children = cref,
                              o_content = co \<rparr> h1;
          (h3, xs) = alloc_list rest h2
      in (h3, x # xs))"

definition alloc_nodes :: "FileNode list \<Rightarrow> heap \<Rightarrow> heap \<times> nat" where
  "alloc_nodes v h = (let (h1, xs) = alloc_list v h in new_arr xs h1)"

text \<open>
  \<open>findFileByPath\<close> returns a reference to the node found (\<open>Some None\<close> for \<open>null\<close>); the outer
  \<open>None\<close> is a dangling reference or a structure deeper than \<open>k\<close>.
\<close>

fun find_h :: "nat \<Rightarrow> heap \<Rightarrow> nat list \<Rightarrow> string \<Rightarrow> nat option option" where
  "find_h 0 h xs p = None"
| "find_h (Suc k) h [] p = Some None"
| "find_h (Suc k) h (x # xs) p =
     (case obj_at h x of
        None \<Rightarrow> None
      | Some node \<Rightarrow>
          if o_path node = p then Some (Some x)
          else if o_type node = Folder \<and> o_children node \<noteq> None
                  \<and> prefix (o_path node @ ''/'') p then
            (case arr_at h (the (o_children node)) of
               None \<Rightarrow> None
             | Some cs \<Rightarrow>
                 (case find_h k h cs p of
                    None \<Rightarrow> None
                  | Some (Some found) \<Rightarrow> Some (Some found)
                  | Some None \<Rightarrow> find_h (Suc k) h xs p))
          else find_h (Suc k) h xs p)"

text \<open>
  \<open>addOrUpdateFileByPath\<close>: the loop over the folder parts of the path and the final write,
  on the deep copy. \<open>find_obj\<close> is \<open>Array.prototype.find\<close> (and \<open>findIndex\<close>, whose index is
  only used to read the element back).
\<close>

fun find_obj :: "heap \<Rightarrow> (node_obj \<Rightarrow> bool) \<Rightarrow> nat list \<Rightarrow> nat option option" where
  "find_obj h P [] = Some None"
| "find_obj h P (x # xs) =
     (case obj_at h x of
        None \<Rightarrow> None
      | Some ob \<Rightarrow> if P ob then Some (Some x) else find_obj h P xs)"

fun upsert_h_loop ::
  "string list \<Rightarrow> string \<Rightarrow> string \<Rightarrow> string \<Rightarrow> nat \<Rightarrow> heap \<Rightarrow> heap option" where
  "upsert_h_loop [] fileName newContent currentPath currentChildren h =
     (case arr_at h currentChildren of
        None \<Rightarrow> None
      | Some xs \<Rightarrow>
          (case find_obj h (\<lambda>node. o_name node = fileName) xs of
             None \<Rightarrow> None
           | Some (Some x) \<Rightarrow>
               (case obj_at h x of
                  None \<Rightarrow> None
                | Some node \<Rightarrow> Some (set_obj x (node\<lparr> o_content := Some newContent \<rparr>) h))
           | Some None \<Rightarrow>
               (let (h1, x) = new_obj \<lparr> o_name = fileName, o_type = File,
                                        o_path = currentPath @ ''/'' @ fileName,
                                        o_children = None, o_content = Some newContent \<rparr> h
                in Some (set_arr currentChildren (xs @ [x]) h1))))"
| "upsert_h_loop (part # parts) fileName newContent currentPath currentChildren h =
     (let currentPath' = currentPath @ ''/'' @ part
      in case arr_at h currentChildren of
           None \<Rightarrow> None
         | Some xs \<Rightarrow>
             (case find_obj h (\<lambda>node. o_name node = part \<and> o_type node = Folder) xs of
                None \<Rightarrow> None
              | Some (Some x) \<Rightarrow>
                  (case obj_at h x of
                     None \<Rightarrow> None
                   | Some folder \<Rightarrow>
                       (case o_children folder of
                          Some c \<Rightarrow> upsert_h_loop parts fileName newContent currentPath' c h
                        | None \<Rightarrow>
                            (let (h1, c) = new_arr [] h;
                                 h2 = set_obj x (folder\<lparr> o_children := Some c \<rparr>) h1
                             in upsert_h_loop parts fileName newContent currentPath' c h2)))
              | Some None \<Rightarrow>
                  (let (h1, c) = new_arr [] h;
                       (h2, x) = new_obj \<lparr> o_name = part, o_type = Folder,
                                           o_path = currentPath', o_children = Some c,
                                           o_content = None \<rparr> h1;
                       h3 = set_arr currentChildren (xs @ [x]) h2
                   in upsert_h_loop parts fileName newContent currentPath' c h3)))"

definition addOrUpdateFileByPath_h ::
  "nat \<Rightarrow> heap \<Rightarrow> nat \<Rightarrow> string \<Rightarrow> string \<Rightarrow> (heap \<times> nat) option" where
  "addOrUpdateFileByPath_h k h nodes p newContent =
     (case read_nodes k h nodes of
        None \<Rightarrow> None
      | Some v \<Rightarrow>
          (let (h1, newStructure) = alloc_nodes v h;
               parts = pathParts p
           in if parts = [] then Some (h1, newStructure)
              else map_option (\<lambda>h'. (h', newStructure))
                     (upsert_h_loop (butlast parts) (last parts) newContent [] newStructure h1)))"

text \<open>
  \<open>deleteNodeByPath\<close>: \<open>filter\<close> and \<open>map\<close> allocate new arrays, the spread \<open>{...node,
  children: ...}\<close> allocates a new object; a node that is not on the way to the path is
  returned by reference.
\<close>

fun filter_h :: "heap \<Rightarrow> string \<Rightarrow> nat list \<Rightarrow> nat list option" where
  "filter_h h p [] = Some []"
| "filter_h h p (x # xs) =
     (case obj_at h x of
        None \<Rightarrow> None
      | Some node \<Rightarrow>
          map_option (\<lambda>kept. if o_path node \<noteq> p then x # kept else kept) (filter_h h p xs))"

fun delete_map :: "nat \<Rightarrow> heap \<Rightarrow> nat list \<Rightarrow> string \<Rightarrow> (heap \<times> nat list) option"
  and deleteNodeByPath_h :: "nat \<Rightarrow> heap \<Rightarrow> nat \<Rightarrow> string \<Rightarrow> (heap \<times> nat) option" where
  "delete_map k h [] p = Some (h, [])"
| "delete_map k h (x # xs) p =
     (case obj_at h x of
        None \<Rightarrow> None
      | Some node \<Rightarrow>
          if o_type node = Folder \<and> o_children node \<noteq> None \<and> prefix (o_path node @ ''/'') p
          then (case deleteNodeByPath_h k h (the (o_children node)) p of
                  None \<Rightarrow> None
                | Some (h1, c) \<Rightarrow>
                    (let (h2, x') = new_obj (node\<lparr> o_children := Some c \<rparr>) h1
                     in map_option (\<lambda>(h3, ys). (h3, x' # ys)) (delete_map k h2 xs p)))
          else map_option (\<lambda>(h3, ys). (h3, x # ys)) (delete_map k h xs p))"
| "deleteNodeByPath_h 0 h nodes p = None"
| "deleteNodeByPath_h (Suc k) h nodes p =
     (case arr_at h nodes of
        None \<Rightarrow> None
      | Some xs \<Rightarrow>
          (case filter_h h p xs of
             None \<Rightarrow> None
           | Some kept \<Rightarrow>
               (let (h1, newNodes) = new_arr kept h
                in case delete_map k h1 kept p of
                     None \<Rightarrow> None
                   | Some (h2, ys) \<Rightarrow> Some (new_arr ys h2))))"

text \<open>
  \<open>addNodeToTree\<close>: the deep copy, the lookup of the new path in the copy, then the push onto
  the root array of the copy or onto the children of the parent found in the copy.
\<close>

definition new_node_h :: "string \<Rightarrow> NodeType \<Rightarrow> string \<Rightarrow> heap \<Rightarrow> heap \<times> nat" where
  "new_node_h nodeName ty newNodePath h =
     (if ty = Folder
      then (let (h1, c) = new_arr [] h
            in new_obj \<lparr> o_name = nodeName, o_type = ty, o_path = newNodePath,
                         o_children = Some c, o_content = None \<rparr> h1)
      else new_obj \<lparr> o_name = nodeName, o_type = ty, o_path = newNodePath,
                     o_children = None, o_content = Some [] \<rparr> h)"

definition push_h :: "nat \<Rightarrow> nat \<Rightarrow> heap \<Rightarrow> heap option" where
  "push_h a x h = (case arr_at h a of None \<Rightarrow> None | Some xs \<Rightarrow> Some (set_arr a (xs @ [x]) h))"

definition ensure_children :: "nat \<Rightarrow> node_obj \<Rightarrow> heap \<Rightarrow> heap \<times> nat" where
  "ensure_children pn parentNode h =
     (case o_children parentNode of
        Some c \<Rightarrow> (h, c)
      | None \<Rightarrow>
          (let (h', c) = new_arr [] h
           in (set_obj pn (parentNode\<lparr> o_children := Some c \<rparr>) h', c)))"

definition add_under_parent ::
  "nat \<Rightarrow> heap \<Rightarrow> nat list \<Rightarrow> nat \<Rightarrow> string \<Rightarrow> string \<Rightarrow> NodeType \<Rightarrow> string
   \<Rightarrow> (heap \<times> (exn + nat)) option" where
  "add_under_parent k h1 roots newStructure parentPath nodeName ty newNodePath =
     (case find_h k h1 roots parentPath of
        None \<Rightarrow> None
      | Some None \<Rightarrow> Some (h1, Inl (JsError (parent_not_found_message parentPath)))
      | Some (Some pn) \<Rightarrow>
          (case obj_at h1 pn of
             None \<Rightarrow> None
           | Some parentNode \<Rightarrow>
               if o_type parentNode = Folder
               then (let (h2, c) = ensure_children pn parentNode h1;
                         (h3, x) = new_node_h nodeName ty newNodePath h2
                     in map_option (\<lambda>h4. (h4, Inr newStructure)) (push_h c x h3))
               else Some (h1, Inl (JsError (parent_not_found_message parentPath)))))"

definition addNodeToTree_h ::
  "nat \<Rightarrow> heap \<Rightarrow> nat \<Rightarrow> string \<Rightarrow> string \<Rightarrow> NodeType \<Rightarrow> (heap \<times> (exn + nat)) option" where
  "addNodeToTree_h k h nodes parentPath nodeName ty =
     (case read_nodes k h nodes of
        None \<Rightarrow> None
      | Some v \<Rightarrow>
          (let (h1, newStructure) = alloc_nodes v h;
               newNodePath =
                 (if parentPath = ''/'' then ''/'' @ nodeName else parentPath @ ''/'' @ nodeName)
           in case arr_at h1 newStructure of
                None \<Rightarrow> None
              | Some roots \<Rightarrow>
                  (case find_h k h1 roots newNodePath of
                     None \<Rightarrow> None
                   | Some (Some existing) \<Rightarrow>
                       Some (h1, Inl (JsError (already_exists_message ty nodeName)))
                   | Some None \<Rightarrow>
                       if parentPath = ''/''
                       then (let (h2, x) = new_node_h nodeName ty newNodePath h1
                             in map_option (\<lambda>h3. (h3, Inr newStructure))
                                  (push_h newStructure x h2))
                       else add_under_parent k h1 roots newStructure parentPath nodeName ty
                              newNodePath)))"

text \<open>
  What a deep copy allocates: with \<open>Lo\<close> objects and \<open>La\<close> arrays in the store before the copy,
  \<open>fresh_inv Lo La h\<close> says that the arrays from \<open>La\<close> on hold only objects from \<open>Lo\<close> on, and
  that these objects have their children among the arrays from \<open>La\<close> on.
  \<open>same_below Lo La h h'\<close>: the objects below \<open>Lo\<close> and the arrays below \<open>La\<close> are in \<open>h'\<close> as
  they are in \<open>h\<close>.
\<close>

definition fresh_inv :: "nat \<Rightarrow> nat \<Rightarrow> heap \<Rightarrow> bool" where
  "fresh_inv Lo La h \<longleftrightarrow>
     Lo \<le> length (objs h) \<and> La \<le> length (arrs h) \<and>
     (\<forall>a. La \<le> a \<and> a < length (arrs h) \<longrightarrow>
          (\<forall>x \<in> set (arrs h ! a). Lo \<le> x \<and> x < length (objs h))) \<and>
     (\<forall>x. Lo \<le> x \<and> x < length (objs h) \<longrightarrow>
          (\<forall>c. o_children (objs h ! x) = Some c \<longrightarrow> La \<le> c \<and> c < length (arrs h)))"

definition same_below :: "nat \<Rightarrow> nat \<Rightarrow> heap \<Rightarrow> heap \<Rightarrow> bool" where
  "same_below Lo La h h' \<longleftrightarrow>
     take Lo (objs h') = take Lo (objs h) \<and> take La (arrs h') = take La (arrs h)"

text \<open>
  The lookup on the store against the lookup on the tree value, and the outcome of
  \<open>addNodeToTree\<close> on the store against its outcome on the tree value: the same error, or a
  result on both sides.
\<close>

definition find_agrees :: "heap \<Rightarrow> nat option \<Rightarrow> FileNode option \<Rightarrow> bool" where
  "find_agrees h r f \<longleftrightarrow>
     (case r of
        None \<Rightarrow> f = None
      | Some y \<Rightarrow> (\<exists>node ob. f = Some node \<and> obj_at h y = Some ob \<and> o_type ob = type node))"

definition raises_like :: "exn + nat \<Rightarrow> exn + FileNode list \<Rightarrow> bool" where
  "raises_like r s \<longleftrightarrow> (case r of Inl e \<Rightarrow> s = Inl e | Inr t \<Rightarrow> (\<exists>w. s = Inr w))"

section \<open>Tree Store: lookup after a write or a delete\<close>

lemma wf_nodes_Nil [simp]: "wf_nodes parent []"
  by (simp add: wf_nodes.simps)

lemma wf_nodes_Cons:
  "wf_nodes parent (node # nodes) \<longleftrightarrow>
     name node \<notin> name ` set nodes \<and>
     path node = parent @ ''/'' @ name node \<and>
     CHR ''/'' \<notin> set (name node) \<and>
     (case children node of None \<Rightarrow> True | Some cs \<Rightarrow> wf_nodes (path node) cs) \<and>
     wf_nodes parent nodes"
  unfolding wf_nodes.simps [of parent "node # nodes"] wf_nodes.simps [of parent nodes]
  by auto

lemma wf_nodes_children:
  "wf_nodes parent nodes \<Longrightarrow> node \<in> set nodes \<Longrightarrow> children node = Some cs \<Longrightarrow>
   wf_nodes (path node) cs"
  by (subst (asm) wf_nodes.simps) force

lemma wf_nodes_path:
  "wf_nodes parent nodes \<Longrightarrow> node \<in> set nodes \<Longrightarrow> path node = parent @ ''/'' @ name node"
  by (subst (asm) wf_nodes.simps) force


lemma no_slash_prefix: "CHR ''/'' \<notin> set b \<Longrightarrow> \<not> prefix (a @ ''/'') b"
  by (auto dest: set_mono_prefix)

lemma takeWhile_segment:
  "CHR ''/'' \<notin> set a \<Longrightarrow> takeWhile (\<lambda>c. c \<noteq> CHR ''/'') (a @ CHR ''/'' # z) = a"
  by (induction a) auto

lemma segment_prefix_eq:
  assumes "CHR ''/'' \<notin> set a" and "CHR ''/'' \<notin> set b"
  shows "prefix (a @ ''/'') (b @ ''/'' @ t) \<longleftrightarrow> a = b"
proof
  assume "prefix (a @ ''/'') (b @ ''/'' @ t)"
  then obtain z where "b @ ''/'' @ t = (a @ ''/'') @ z" by (auto simp: prefix_def)
  then have "takeWhile (\<lambda>c. c \<noteq> CHR ''/'') (b @ CHR ''/'' # t)
           = takeWhile (\<lambda>c. c \<noteq> CHR ''/'') (a @ CHR ''/'' # z)" by simp
  with assms show "a = b" by (simp add: takeWhile_segment)
next
  assume "a = b" then show "prefix (a @ ''/'') (b @ ''/'' @ t)" by simp
qed

lemma find_by_name:
  "wf_nodes parent nodes \<Longrightarrow> CHR ''/'' \<notin> set nm \<Longrightarrow>
   findFileByPath nodes (parent @ ''/'' @ nm) = List.find (\<lambda>node. name node = nm) nodes"
proof (induction nodes)
  case Nil
  then show ?case by simp
next
  case (Cons node nodes)
  from Cons.prems(1) have p: "path node = parent @ ''/'' @ name node"
    and wf: "wf_nodes parent nodes" by (simp_all add: wf_nodes_Cons)
  have np: "\<not> prefix (name node @ ''/'') nm" using Cons.prems(2) by (rule no_slash_prefix)
  show ?case using Cons.IH [OF wf Cons.prems(2)] np by (simp add: p)
qed

lemma find_by_segment:
  "wf_nodes parent nodes \<Longrightarrow> CHR ''/'' \<notin> set seg \<Longrightarrow>
   findFileByPath nodes (parent @ ''/'' @ seg @ ''/'' @ rest) =
     (case List.find (\<lambda>node. name node = seg) nodes of
        None \<Rightarrow> None
      | Some f \<Rightarrow>
          if type f = Folder \<and> children f \<noteq> None
          then findFileByPath (the (children f)) (parent @ ''/'' @ seg @ ''/'' @ rest)
          else None)"
proof (induction nodes)
  case Nil
  then show ?case by simp
next
  case (Cons node nodes)
  from Cons.prems(1) have p: "path node = parent @ ''/'' @ name node"
    and ns: "CHR ''/'' \<notin> set (name node)"
    and dn: "name node \<notin> name ` set nodes"
    and wf: "wf_nodes parent nodes" by (simp_all add: wf_nodes_Cons)
  have ne: "name node \<noteq> seg @ ''/'' @ rest" using ns by auto
  have pre: "prefix (name node @ ''/'') (seg @ ''/'' @ rest) \<longleftrightarrow> name node = seg"
    using ns Cons.prems(2) by (rule segment_prefix_eq)
  show ?case
  proof (cases "name node = seg")
    case True
    have "List.find (\<lambda>node. name node = seg) nodes = None"
      unfolding find_None_iff using dn True by blast
    with Cons.IH [OF wf Cons.prems(2)] True ne pre show ?thesis
      by (simp add: p split: option.split)
  next
    case False
    with Cons.IH [OF wf Cons.prems(2)] ne pre show ?thesis by (simp add: p)
  qed
qed


lemma join_path_Nil [simp]: "join_path [] = []"
  by (simp add: join_path_def)

lemma join_path_Cons [simp]: "join_path (seg # segs) = ''/'' @ seg @ join_path segs"
  by (simp add: join_path_def)

lemma join_path_append: "join_path (xs @ ys) = join_path xs @ join_path ys"
  by (simp add: join_path_def)







lemma path_set_content [simp]: "path (set_content node c) = path node"
  and path_set_children [simp]: "path (set_children node cs) = path node"
  and type_set_children [simp]: "type (set_children node cs) = type node"
  and children_set_children [simp]: "children (set_children node cs) = Some cs"
  by (simp_all add: set_content_def set_children_def)


















section \<open>Tree Store: adding a node\<close>

lemma messages_differ:
  "already_exists_message ty nodeName \<noteq> parent_not_found_message parentPath"
  by (cases ty) (simp_all add: already_exists_message_def parent_not_found_message_def)

lemma addNodeToTree_duplicate_iff:
  "addNodeToTree nodes parentPath nodeName ty = Inl (JsError (already_exists_message ty nodeName))
   \<longleftrightarrow> findFileByPath nodes
         (if parentPath = ''/'' then ''/'' @ nodeName else parentPath @ ''/'' @ nodeName) \<noteq> None"
  using messages_differ [of ty nodeName parentPath]
  by (auto simp: addNodeToTree_def Let_def split: option.splits)

lemma find_name_Some:
  "List.find (\<lambda>node. name node = nm) nodes = Some f \<Longrightarrow> f \<in> set nodes \<and> name f = nm"
  by (auto simp: find_Some_iff)

lemma find_name_None_iff:
  "List.find (\<lambda>node. name node = nm) nodes = None \<longleftrightarrow> nm \<notin> name ` set nodes"
  by (auto simp: find_None_iff)

lemma split_first_slash:
  "CHR ''/'' \<in> set r \<Longrightarrow> \<exists>r'. r = takeWhile (\<lambda>c. c \<noteq> CHR ''/'') r @ ''/'' @ r'"
  by (induction r) auto

lemma find_child:
  "wf_nodes parent nodes \<Longrightarrow> CHR ''/'' \<notin> set nm \<Longrightarrow>
   findFileByPath nodes (parent @ ''/'' @ r @ ''/'' @ nm) =
     (case findFileByPath nodes (parent @ ''/'' @ r) of
        None \<Rightarrow> None
      | Some f \<Rightarrow>
          if type f = Folder \<and> children f \<noteq> None
          then List.find (\<lambda>node. name node = nm) (the (children f))
          else None)"
proof (induction r arbitrary: parent nodes rule: length_induct)
  case (1 r)
  note wf = "1.prems"(1) and nm = "1.prems"(2)
  define seg where "seg = takeWhile (\<lambda>c. c \<noteq> CHR ''/'') r"
  have seg: "CHR ''/'' \<notin> set seg" by (auto simp: seg_def dest: set_takeWhileD)
  have inner: "findFileByPath (the (children f)) (parent @ ''/'' @ seg @ ''/'' @ x)
             = findFileByPath (the (children f)) (path f @ ''/'' @ x)"
    if "List.find (\<lambda>node. name node = seg) nodes = Some f" for f x
    using wf_nodes_path [OF wf, of f] find_name_Some [OF that] by simp
  have wfc: "wf_nodes (path f) (the (children f))"
    if "List.find (\<lambda>node. name node = seg) nodes = Some f" and "children f \<noteq> None" for f
    using wf_nodes_children [OF wf, of f] find_name_Some [OF that(1)] that(2) by auto
  show ?case
  proof (cases "CHR ''/'' \<in> set r")
    case False
    then have "takeWhile (\<lambda>c. c \<noteq> CHR ''/'') r = r"
      by (simp only: takeWhile_eq_all_conv) blast
    then have r: "r = seg" unfolding seg_def by (rule sym)
    have lhs: "findFileByPath nodes (parent @ ''/'' @ seg @ ''/'' @ nm) =
       (case List.find (\<lambda>node. name node = seg) nodes of
          None \<Rightarrow> None
        | Some f \<Rightarrow> if type f = Folder \<and> children f \<noteq> None
                    then findFileByPath (the (children f)) (parent @ ''/'' @ seg @ ''/'' @ nm)
                    else None)"
      using wf seg by (rule find_by_segment)
    have rhs: "findFileByPath nodes (parent @ ''/'' @ seg) = List.find (\<lambda>node. name node = seg) nodes"
      using wf seg by (rule find_by_name)
    show ?thesis
    proof (cases "List.find (\<lambda>node. name node = seg) nodes")
      case None
      with lhs rhs show ?thesis unfolding r by simp
    next
      case (Some f)
      show ?thesis
      proof (cases "type f = Folder \<and> children f \<noteq> None")
        case True
        then have c: "children f \<noteq> None" by simp
        have "findFileByPath (the (children f)) (path f @ ''/'' @ nm)
            = List.find (\<lambda>node. name node = nm) (the (children f))"
          using wfc [OF Some c] nm by (rule find_by_name)
        with lhs rhs Some True inner [OF Some, of nm] show ?thesis
          unfolding r by simp
      next
        case False
        with lhs rhs Some show ?thesis unfolding r by auto
      qed
    qed
  next
    case True
    then obtain r' where r: "r = seg @ ''/'' @ r'"
      unfolding seg_def using split_first_slash by blast
    then have len: "length r' < length r" by simp
    have lhs: "findFileByPath nodes (parent @ ''/'' @ seg @ ''/'' @ (r' @ ''/'' @ nm)) =
       (case List.find (\<lambda>node. name node = seg) nodes of
          None \<Rightarrow> None
        | Some f \<Rightarrow> if type f = Folder \<and> children f \<noteq> None
                    then findFileByPath (the (children f))
                           (parent @ ''/'' @ seg @ ''/'' @ (r' @ ''/'' @ nm))
                    else None)"
      using wf seg by (rule find_by_segment)
    have rhs: "findFileByPath nodes (parent @ ''/'' @ seg @ ''/'' @ r') =
       (case List.find (\<lambda>node. name node = seg) nodes of
          None \<Rightarrow> None
        | Some f \<Rightarrow> if type f = Folder \<and> children f \<noteq> None
                    then findFileByPath (the (children f)) (parent @ ''/'' @ seg @ ''/'' @ r')
                    else None)"
      using wf seg by (rule find_by_segment)
    have e1: "parent @ ''/'' @ r @ ''/'' @ nm = parent @ ''/'' @ seg @ ''/'' @ (r' @ ''/'' @ nm)"
      and e2: "parent @ ''/'' @ r = parent @ ''/'' @ seg @ ''/'' @ r'"
      by (simp_all add: r)
    show ?thesis
    proof (cases "List.find (\<lambda>node. name node = seg) nodes")
      case None
      with lhs rhs show ?thesis unfolding e1 e2 by simp
    next
      case (Some f)
      show ?thesis
      proof (cases "type f = Folder \<and> children f \<noteq> None")
        case True
        then have c: "children f \<noteq> None" by simp
        from "1.IH" len wfc [OF Some c] nm
        have "findFileByPath (the (children f)) (path f @ ''/'' @ r' @ ''/'' @ nm) =
           (case findFileByPath (the (children f)) (path f @ ''/'' @ r') of
              None \<Rightarrow> None
            | Some f \<Rightarrow> if type f = Folder \<and> children f \<noteq> None
                        then List.find (\<lambda>node. name node = nm) (the (children f))
                        else None)"
          by blast
        with lhs rhs Some True inner [OF Some, of "r' @ ''/'' @ nm"] inner [OF Some, of r']
        show ?thesis unfolding e1 e2 by simp
      next
        case False
        with lhs rhs Some show ?thesis unfolding e1 e2 by auto
      qed
    qed
  qed
qed


lemma addNodeToTree_duplicate_iff_sibling:
  assumes wf: "wf_tree nodes" and nm: "CHR ''/'' \<notin> set nodeName"
    and ab: "prefix ''/'' parentPath"
  shows "addNodeToTree nodes parentPath nodeName ty
           = Inl (JsError (already_exists_message ty nodeName))
         \<longleftrightarrow> sibling_exists nodes parentPath nodeName"
proof (cases "parentPath = ''/''")
  case True
  have "findFileByPath nodes ([] @ ''/'' @ nodeName)
      = List.find (\<lambda>node. name node = nodeName) nodes"
    using wf nm unfolding wf_tree_def by (rule find_by_name)
  then have "findFileByPath nodes (''/'' @ nodeName) \<noteq> None \<longleftrightarrow> nodeName \<in> name ` set nodes"
    using find_name_None_iff [of nodeName nodes] by simp
  with True show ?thesis
    by (simp add: addNodeToTree_duplicate_iff sibling_exists_def childrenAt_def)
next
  case False
  from ab obtain r where r: "parentPath = ''/'' @ r" by (auto simp: prefix_def)
  have fc: "findFileByPath nodes ([] @ ''/'' @ r @ ''/'' @ nodeName) =
     (case findFileByPath nodes ([] @ ''/'' @ r) of
        None \<Rightarrow> None
      | Some f \<Rightarrow>
          if type f = Folder \<and> children f \<noteq> None
          then List.find (\<lambda>node. name node = nodeName) (the (children f))
          else None)"
    using wf nm unfolding wf_tree_def by (rule find_child)
  have "findFileByPath nodes (parentPath @ ''/'' @ nodeName) \<noteq> None
        \<longleftrightarrow> sibling_exists nodes parentPath nodeName"
  proof (cases "findFileByPath nodes parentPath")
    case None
    with fc False show ?thesis by (simp add: r sibling_exists_def childrenAt_def)
  next
    case (Some f)
    show ?thesis
    proof (cases "children f")
      case None
      with fc Some False show ?thesis by (simp add: r sibling_exists_def childrenAt_def)
    next
      case (Some cs)
      with fc \<open>findFileByPath nodes parentPath = Some f\<close> False
        find_name_None_iff [of nodeName cs]
      show ?thesis by (auto simp: r sibling_exists_def childrenAt_def)
    qed
  qed
  with False show ?thesis by (simp add: addNodeToTree_duplicate_iff)
qed

section \<open>History: push and undo\<close>

lemma js_slice0_take: "0 \<le> e \<Longrightarrow> js_slice0 xs e = take (nat e) xs"
  by (simp add: js_slice0_def Let_def min_def)

lemma history_consistent_initial: "history_consistent (initial_state t)"
  by (simp add: history_consistent_def initial_state_def)

lemma history_consistent_pushHistory:
  "0 \<le> historyIndex s \<Longrightarrow> history_consistent (pushHistory t s)"
  by (simp add: history_consistent_def pushHistory_def Let_def js_slice0_take nth_append)

lemma history_consistent_handleUndo:
  "history_consistent s \<Longrightarrow> history_consistent (handleUndo s)"
  by (auto simp: history_consistent_def handleUndo_def Let_def js_index_def)

text \<open>
  C4. In a state whose cursor is an index of the log, \<open>pushHistory\<close> keeps the snapshots up
  to and including the cursor, appends the new tree, moves the cursor to the new last index
  and makes the new tree live; \<open>handleUndo\<close> at a cursor above 0 moves the cursor one down
  and makes the snapshot there live, and at cursor 0 it changes nothing.
\<close>

theorem pushHistory_handleUndo_contract:
  assumes "0 \<le> historyIndex s" and "historyIndex s < int (length (history s))"
  shows "history (pushHistory t s) = take (nat (historyIndex s) + 1) (history s) @ [t]
       \<and> historyIndex (pushHistory t s) = historyIndex s + 1
       \<and> historyIndex (pushHistory t s) = int (length (history (pushHistory t s))) - 1
       \<and> projectStructure (pushHistory t s) = Some t
       \<and> (0 < historyIndex s \<longrightarrow>
            historyIndex (handleUndo s) = historyIndex s - 1
          \<and> history (handleUndo s) = history s
          \<and> projectStructure (handleUndo s) = Some (history s ! nat (historyIndex s - 1)))
       \<and> (historyIndex s = 0 \<longrightarrow> handleUndo s = s)"
proof -
  have slice: "js_slice0 (history s) (historyIndex s + 1) = take (nat (historyIndex s) + 1) (history s)"
    using assms(1) by (simp add: js_slice0_take nat_add_distrib)
  have len: "length (take (nat (historyIndex s) + 1) (history s)) = nat (historyIndex s) + 1"
    using assms by simp
  have push: "history (pushHistory t s) = take (nat (historyIndex s) + 1) (history s) @ [t]"
    by (simp add: pushHistory_def Let_def slice)
  have idx: "historyIndex (pushHistory t s) = historyIndex s + 1"
    using assms(1) len by (simp add: pushHistory_def Let_def slice)
  have last: "historyIndex (pushHistory t s) = int (length (history (pushHistory t s))) - 1"
    by (simp add: pushHistory_def Let_def)
  have live: "projectStructure (pushHistory t s) = Some t"
    by (simp add: pushHistory_def Let_def)
  have undo: "0 < historyIndex s \<longrightarrow>
            historyIndex (handleUndo s) = historyIndex s - 1
          \<and> history (handleUndo s) = history s
          \<and> projectStructure (handleUndo s) = Some (history s ! nat (historyIndex s - 1))"
    using assms by (simp add: handleUndo_def Let_def js_index_def)
  have noop: "historyIndex s = 0 \<longrightarrow> handleUndo s = s"
    by (simp add: handleUndo_def)
  from push idx last live undo noop show ?thesis by blast
qed

theorem pushHistory_handleUndo_contract_witness:
  "history (pushHistory [] (pushHistory [FileNode ''a'' File ''/a'' None (Some ''x'')] (initial_state [])))
     = [[], [FileNode ''a'' File ''/a'' None (Some ''x'')], []]
   \<and> projectStructure (handleUndo (pushHistory [FileNode ''a'' File ''/a'' None (Some ''x'')] (initial_state [])))
     = Some []"
  using pushHistory_handleUndo_contract
          [of "pushHistory [FileNode ''a'' File ''/a'' None (Some ''x'')] (initial_state [])" "[]"]
  by (simp add: pushHistory_def initial_state_def js_slice0_def Let_def)

section \<open>History: redo\<close>

text \<open>
  C1. One push, one undo and one redo: the redo does not return to the pushed tree. The
  cursor goes from 0 to -1 and the live tree becomes \<open>history[-1]\<close>, which is undefined.
\<close>

theorem handleRedo_after_undo_decrements:
  "historyIndex (handleRedo (handleUndo (pushHistory t1 (initial_state t0)))) = - 1
   \<and> projectStructure (handleRedo (handleUndo (pushHistory t1 (initial_state t0)))) = None
   \<and> projectStructure (pushHistory t1 (initial_state t0)) = Some t1"
  by (simp add: handleRedo_def handleUndo_def pushHistory_def initial_state_def
                js_slice0_def js_index_def Let_def)

text \<open>
  C10. After a push and an undo the state is consistent; the redo that follows leaves the
  cursor below 0, so the correspondence between live tree and log is lost.
\<close>

theorem handleRedo_breaks_history_consistent:
  "history_consistent (handleUndo (pushHistory t1 (initial_state t0)))
   \<and> \<not> history_consistent (handleRedo (handleUndo (pushHistory t1 (initial_state t0))))"
  by (simp add: history_consistent_def handleRedo_def handleUndo_def pushHistory_def
                initial_state_def js_slice0_def js_index_def Let_def)

section \<open>AI batch edits\<close>

lemma concat_split_spaces: "concat (split_spaces s) = s"
proof (induction s rule: split_spaces.induct)
  case (1 s)
  define word where "word = takeWhile (\<lambda>c. \<not> js_whitespace c) s"
  define rest where "rest = dropWhile (\<lambda>c. \<not> js_whitespace c) s"
  have s: "s = word @ rest" by (simp add: word_def rest_def)
  show ?case
  proof (cases "rest = []")
    case True
    then have "split_spaces s = [word]"
      by (subst split_spaces.simps) (simp add: Let_def word_def rest_def)
    with True s show ?thesis by simp
  next
    case False
    then have sp: "split_spaces s
        = word # takeWhile js_whitespace rest # split_spaces (dropWhile js_whitespace rest)"
      by (subst split_spaces.simps) (simp add: Let_def word_def rest_def)
    have "concat (split_spaces (dropWhile js_whitespace rest)) = dropWhile js_whitespace rest"
      using "1.IH" [OF word_def [symmetric, THEN sym] rest_def False] .
    with sp have "concat (split_spaces s) = word @ takeWhile js_whitespace rest @ dropWhile js_whitespace rest"
      by simp
    with s show ?thesis by simp
  qed
qed

lemma foldl_append_concat: "foldl (@) acc xs = acc @ concat xs"
  by (induction xs arbitrary: acc) simp_all


lemma same_log_refl [simp]: "same_log s s"
  by (simp add: same_log_def)


lemma same_log_wc_log [simp]: "same_log s (wc_log call s)"
  by (simp add: same_log_def wc_log_def)


















section \<open>The prompt handler sorts the live tree\<close>

lemma buildString_Nil: "buildString localeCompare [] = []"
  by (simp add: buildString.simps js_sort_def)


lemma sorted_node_File: "type node = File \<Longrightarrow> sorted_node localeCompare node = node"
  by (simp add: sorted_node_def)

text \<open>
  A prompt that the service answers with a summary only: the batch is empty and nothing is
  pushed, yet the live tree and the snapshot at the cursor have the folder before the file
  afterwards (the comparison of names here is by length).
\<close>

lemma handleSendPrompt_sorts_in_place:
  "handleSendPrompt (\<lambda>a b. int (length a) - int (length b)) True (\<lambda>call. False)
     (Some \<lparr> summary = ''ok'', filesToUpdate = None, filesToDelete = None \<rparr>) ''hello'' []
     (initial_state [FileNode ''b.ts'' File ''/b.ts'' None (Some ''x''),
                     FileNode ''src'' Folder ''/src'' (Some []) None])
   = Returned ()
       ((initial_state [FileNode ''src'' Folder ''/src'' (Some []) None,
                        FileNode ''b.ts'' File ''/b.ts'' None (Some ''x'')])
          \<lparr> aiMessage := ''ok'' \<rparr>)"
proof -
  have b: "buildString (\<lambda>a b. int (length a) - int (length b))
             [FileNode ''b.ts'' File ''/b.ts'' None (Some ''x''),
              FileNode ''src'' Folder ''/src'' (Some []) None]
           = [FileNode ''src'' Folder ''/src'' (Some []) None,
              FileNode ''b.ts'' File ''/b.ts'' None (Some ''x'')]"
    by (subst buildString.simps)
       (simp add: js_sort_def compareNodes_def buildString_Nil set_children_def)
  show ?thesis
    by (simp add: handleSendPrompt_def generateCodeFromPrompt_def formatProjectStructureForAI_def
                  b js_index_def applyAiChanges_def initial_state_def Let_def
                  response_deletions_def response_updates_def foldl_append_concat
                  concat_split_spaces)
qed

section \<open>Protected paths\<close>







section \<open>Moves\<close>




section \<open>Search: empty query, escaping, invalid pattern\<close>

lemma backslash_special: "CHR 0x5C \<in> set regex_special"
  by (simp add: regex_special_def)

lemma escapeRegExp_Nil [simp]: "escapeRegExp [] = []"
  by (simp add: escapeRegExp_def)

lemma escapeRegExp_Cons:
  "escapeRegExp (c # cs) =
     (if c \<in> set regex_special then CHR 0x5C # c # escapeRegExp cs else c # escapeRegExp cs)"
  by (simp add: escapeRegExp_def)

lemma regex_literal_escapeRegExp: "regex_literal (escapeRegExp query)"
proof (induction query)
  case Nil
  then show ?case by simp
next
  case (Cons c cs)
  show ?case
  proof (cases "c \<in> set regex_special")
    case True
    with Cons show ?thesis by (simp add: escapeRegExp_Cons)
  next
    case False
    with backslash_special have "c \<noteq> CHR 0x5C" by auto
    with False Cons show ?thesis
      by (cases "escapeRegExp cs") (simp_all add: escapeRegExp_Cons)
  qed
qed

lemma unescape_escapeRegExp: "unescape (escapeRegExp query) = query"
proof (induction query)
  case Nil
  then show ?case by simp
next
  case (Cons c cs)
  show ?case
  proof (cases "c \<in> set regex_special")
    case True
    with Cons show ?thesis by (simp add: escapeRegExp_Cons)
  next
    case False
    with backslash_special have "c \<noteq> CHR 0x5C" by auto
    with False Cons show ?thesis
      by (cases "escapeRegExp cs") (simp_all add: escapeRegExp_Cons)
  qed
qed

text \<open>
  C8. A search with the empty query returns the empty list. For a query that is not a
  regular expression the pattern is the escaped query, between two \<open>\b\<close> when whole-word
  is set; the escaped query has no unescaped metacharacter and unescapes to the query. When
  the pattern does not compile, the search returns the empty list; otherwise it is the scan
  of the tree with the compiled pattern.
\<close>

theorem searchInProject_empty_escaped_invalid:
  "searchInProject compile exec fuel nodes [] options = Some []
   \<and> (\<not> isRegex options \<longrightarrow>
        search_pattern query options
          = (if isWholeWord options
             then [CHR 0x5C, CHR ''b''] @ escapeRegExp query @ [CHR 0x5C, CHR ''b'']
             else escapeRegExp query)
      \<and> regex_literal (escapeRegExp query) \<and> unescape (escapeRegExp query) = query)
   \<and> (compile (search_pattern query options) (search_flags options) = None \<longrightarrow>
        searchInProject compile exec fuel nodes query options = Some [])
   \<and> (query \<noteq> [] \<longrightarrow>
        searchInProject compile exec fuel nodes query options
          = (case compile (search_pattern query options) (search_flags options) of
               None \<Rightarrow> Some []
             | Some regex \<Rightarrow>
                 map_option concat
                   (those (map (searchInNode exec fuel regex True) nodes))))"
proof -
  have g: "CHR ''g'' \<in> set (search_flags options)" by (simp add: search_flags_def)
  have 1: "searchInProject compile exec fuel nodes [] options = Some []"
    by (simp add: searchInProject_def)
  have 2: "\<not> isRegex options \<longrightarrow>
        search_pattern query options
          = (if isWholeWord options
             then [CHR 0x5C, CHR ''b''] @ escapeRegExp query @ [CHR 0x5C, CHR ''b'']
             else escapeRegExp query)"
    by (simp add: search_pattern_def)
  have 3: "compile (search_pattern query options) (search_flags options) = None \<longrightarrow>
        searchInProject compile exec fuel nodes query options = Some []"
    by (simp add: searchInProject_def)
  have 4: "query \<noteq> [] \<longrightarrow>
        searchInProject compile exec fuel nodes query options
          = (case compile (search_pattern query options) (search_flags options) of
               None \<Rightarrow> Some []
             | Some regex \<Rightarrow>
                 map_option concat
                   (those (map (searchInNode exec fuel regex True) nodes)))"
    by (simp add: searchInProject_def g split: option.split)
  from 1 2 3 4 regex_literal_escapeRegExp [of query] unescape_escapeRegExp [of query]
  show ?thesis by blast
qed

theorem searchInProject_empty_escaped_invalid_witness:
  "search_pattern ''a.b'' \<lparr> isCaseSensitive = False, isRegex = False, isWholeWord = True \<rparr>
     = [CHR 0x5C, CHR ''b'', CHR ''a'', CHR 0x5C, CHR ''.'', CHR ''b'', CHR 0x5C, CHR ''b'']
   \<and> searchInProject (\<lambda>pattern flags. if pattern = ''('' then None else Some pattern)
        (\<lambda>regex line lastIndex. None) 1
        [FileNode ''a'' File ''/a'' None (Some ''(x'')] ''(''
        \<lparr> isCaseSensitive = True, isRegex = True, isWholeWord = False \<rparr> = Some []"
  using searchInProject_empty_escaped_invalid
    [of "\<lambda>pattern flags. if pattern = ''('' then None else Some pattern"
        "\<lambda>regex line lastIndex. None" 1 "[FileNode ''a'' File ''/a'' None (Some ''(x'')]"
        "\<lparr> isCaseSensitive = True, isRegex = True, isWholeWord = False \<rparr>" "''(''"]
    searchInProject_empty_escaped_invalid
    [of "\<lambda>pattern flags. if pattern = ''('' then None else Some pattern"
        "\<lambda>regex line lastIndex. None" 1 "[FileNode ''a'' File ''/a'' None (Some ''(x'')]"
        "\<lparr> isCaseSensitive = False, isRegex = False, isWholeWord = True \<rparr>" "''a.b''"]
  by (simp add: search_pattern_def escapeRegExp_def regex_special_def)

section \<open>Tree Store: the input of a mutator is left as it was\<close>

subsection \<open>Allocation only extends the store\<close>

lemma heap_le_refl [simp]: "heap_le h h"
  by (simp add: heap_le_def)

lemma heap_le_trans: "heap_le h h' \<Longrightarrow> heap_le h' h'' \<Longrightarrow> heap_le h h''"
  by (auto simp: heap_le_def elim: prefix_order.trans)

lemma heap_le_new_obj: "new_obj ob h = (h', x) \<Longrightarrow> heap_le h h'"
  by (auto simp: new_obj_def heap_le_def)

lemma heap_le_new_arr: "new_arr xs h = (h', a) \<Longrightarrow> heap_le h h'"
  by (auto simp: new_arr_def heap_le_def)

lemma obj_at_mono: "heap_le h h' \<Longrightarrow> obj_at h x = Some ob \<Longrightarrow> obj_at h' x = Some ob"
  by (auto simp: heap_le_def obj_at_def prefix_def nth_append split: if_splits)

lemma arr_at_mono: "heap_le h h' \<Longrightarrow> arr_at h a = Some xs \<Longrightarrow> arr_at h' a = Some xs"
  by (auto simp: heap_le_def arr_at_def prefix_def nth_append split: if_splits)

lemma read_list_mono:
  "read_list k h xs = Some v \<Longrightarrow> heap_le h h' \<Longrightarrow> read_list k h' xs = Some v"
proof (induction k h xs arbitrary: v rule: read_list.induct)
  case (1 h xs)
  then show ?case by simp
next
  case (2 k h)
  then show ?case by simp
next
  case (3 k h x xs)
  from "3.prems"(1) obtain ob where ob: "obj_at h x = Some ob"
    by (auto split: option.splits)
  then have ob': "obj_at h' x = Some ob" using "3.prems"(2) by (simp add: obj_at_mono)
  show ?case
  proof (cases "o_children ob")
    case None
    with "3.prems"(1) ob obtain vs where vs: "read_list (Suc k) h xs = Some vs"
      and v: "v = FileNode (o_name ob) (o_type ob) (o_path ob) None (o_content ob) # vs"
      by auto
    from "3.IH"(2) [OF ob _ vs "3.prems"(2)] None have "read_list (Suc k) h' xs = Some vs"
      by simp
    with ob' None v show ?thesis by simp
  next
    case (Some c)
    with "3.prems"(1) ob obtain cs where cs: "arr_at h c = Some cs"
      by (auto split: option.splits)
    with "3.prems"(1) ob Some obtain chv where chv: "read_list k h cs = Some chv"
      by (auto split: option.splits)
    with "3.prems"(1) ob Some cs obtain vs where vs: "read_list (Suc k) h xs = Some vs"
      and v: "v = FileNode (o_name ob) (o_type ob) (o_path ob) (Some chv) (o_content ob) # vs"
      by auto
    have cs': "arr_at h' c = Some cs" using "3.prems"(2) cs by (simp add: arr_at_mono)
    have chv': "read_list k h' cs = Some chv"
      using "3.IH"(1) [OF ob Some cs chv "3.prems"(2)] .
    have "read_list (Suc k) h' xs = Some vs"
      using "3.IH"(2) [OF ob _ vs "3.prems"(2)] Some cs chv by simp
    with ob' Some cs' chv' v show ?thesis by simp
  qed
qed

lemma read_nodes_mono:
  "read_nodes k h a = Some v \<Longrightarrow> heap_le h h' \<Longrightarrow> read_nodes k h' a = Some v"
proof -
  assume r: "read_nodes k h a = Some v" and le: "heap_le h h'"
  from r obtain xs where xs: "arr_at h a = Some xs" and v: "read_list k h xs = Some v"
    by (auto simp: read_nodes_def split: option.splits)
  from arr_at_mono [OF le xs] read_list_mono [OF v le] show ?thesis
    by (simp add: read_nodes_def)
qed

lemma read_list_elements:
  "read_list k h xs = Some v \<Longrightarrow> x \<in> set xs \<Longrightarrow> \<exists>n. read_list k h [x] = Some [n]"
proof (induction xs arbitrary: v)
  case Nil
  then show ?case by simp
next
  case (Cons y ys)
  from Cons.prems(1) obtain k' where k: "k = Suc k'" by (cases k) auto
  from Cons.prems(1) obtain n vs where n: "read_list k h [y] = Some [n]"
    and vs: "read_list k h ys = Some vs"
    unfolding k by (auto split: option.splits)
  show ?case
  proof (cases "x = y")
    case True
    with n show ?thesis by blast
  next
    case False
    with Cons.prems(2) have "x \<in> set ys" by simp
    with Cons.IH [OF vs] show ?thesis by blast
  qed
qed

lemma read_list_obj:
  "read_list k h [x] = Some [n] \<Longrightarrow> \<exists>ob. obj_at h x = Some ob"
  by (cases k) (auto split: option.splits)

lemma filter_h_total:
  "\<forall>x \<in> set xs. obj_at h x \<noteq> None \<Longrightarrow>
   \<exists>kept. filter_h h p xs = Some kept \<and> set kept \<subseteq> set xs"
  by (induction xs) auto

lemma delete_map_frame: "delete_map k h xs p = Some (h', ys) \<Longrightarrow> heap_le h h'"
  and deleteNodeByPath_h_frame: "deleteNodeByPath_h j g a q = Some (g', r) \<Longrightarrow> heap_le g g'"
proof (induction k h xs p and j g a q arbitrary: h' ys and g' r
       rule: delete_map_deleteNodeByPath_h.induct)
  case (1 k h p)
  then show ?case by simp
next
  case (2 k h x xs p)
  note d = "2.prems"
  then obtain node where node: "obj_at h x = Some node" by (auto split: option.splits)
  show ?case
  proof (cases "o_type node = Folder \<and> o_children node \<noteq> None
                \<and> prefix (o_path node @ ''/'') p")
    case True
    with d node obtain h1 c where del: "deleteNodeByPath_h k h (the (o_children node)) p = Some (h1, c)"
      by (auto split: option.splits)
    obtain h2 x' where no: "new_obj (node\<lparr> o_children := Some c \<rparr>) h1 = (h2, x')"
      by (cases "new_obj (node\<lparr> o_children := Some c \<rparr>) h1")
    with d node True del obtain ys' where rest: "delete_map k h2 xs p = Some (h', ys')"
      by (auto split: option.splits)
    have a: "heap_le h h1" using "2.IH"(1) [OF node True del] .
    have b: "heap_le h1 h2" using no by (rule heap_le_new_obj)
    have c: "heap_le h2 h'"
      using "2.IH"(2) [OF node True del refl refl no [symmetric] rest] .
    from a b c show ?thesis by (blast intro: heap_le_trans)
  next
    case False
    with d node obtain ys' where rest: "delete_map k h xs p = Some (h', ys')"
      by (auto split: option.splits)
    with "2.IH"(3) [OF node False] show ?thesis by blast
  qed
next
  case (3 h nodes p)
  then show ?case by simp
next
  case (4 k h nodes p)
  note d = "4.prems"
  then obtain xs kept where xs: "arr_at h nodes = Some xs" and kept: "filter_h h p xs = Some kept"
    by (auto split: option.splits)
  obtain h1 newNodes where na: "new_arr kept h = (h1, newNodes)" by (cases "new_arr kept h")
  with d xs kept obtain h2 ys where dm: "delete_map k h1 kept p = Some (h2, ys)"
    and res: "new_arr ys h2 = (g', r)"
    by (auto split: option.splits)
  have a: "heap_le h h1" using na by (rule heap_le_new_arr)
  have b: "heap_le h1 h2" using "4.IH" [OF xs kept refl na [symmetric] dm] .
  have c: "heap_le h2 g'" using res by (rule heap_le_new_arr)
  from a b c show ?case by (blast intro: heap_le_trans)
qed

lemma read_list_single_children:
  assumes "read_list (Suc k) h [x] = Some [n]" and "obj_at h x = Some ob"
    and "o_children ob = Some c"
  shows "\<exists>cs chv. arr_at h c = Some cs \<and> read_list k h cs = Some chv"
  using assms by (auto split: option.splits)

lemma delete_map_total:
  "\<forall>x \<in> set ys. \<exists>n. read_list k h0 [x] = Some [n] \<Longrightarrow> heap_le h0 h \<Longrightarrow>
   \<exists>h' zs. delete_map k h ys p = Some (h', zs)"
proof (induction k arbitrary: h0 h ys)
  case 0
  then have "ys = []" by (cases ys) auto
  then show ?case by simp
next
  case (Suc k)
  from Suc.prems show ?case
  proof (induction ys arbitrary: h)
    case Nil
    then show ?case by simp
  next
    case (Cons x ys)
    from Cons.prems(1) obtain n where n: "read_list (Suc k) h0 [x] = Some [n]" by auto
    then obtain ob where ob0: "obj_at h0 x = Some ob" by (auto split: option.splits)
    then have ob: "obj_at h x = Some ob" using Cons.prems(2) by (simp add: obj_at_mono)
    from Cons.prems(1) have rest: "\<forall>x \<in> set ys. \<exists>n. read_list (Suc k) h0 [x] = Some [n]" by simp
    show ?case
    proof (cases "o_type ob = Folder \<and> o_children ob \<noteq> None \<and> prefix (o_path ob @ ''/'') p")
      case False
      from Cons.IH [OF rest Cons.prems(2)] obtain h' zs
        where "delete_map (Suc k) h ys p = Some (h', zs)" by blast
      with ob False show ?thesis by auto
    next
      case True
      then obtain c where c: "o_children ob = Some c" by auto
      from read_list_single_children [OF n ob0 c] obtain cs chv
        where cs0: "arr_at h0 c = Some cs" and chv: "read_list k h0 cs = Some chv" by blast
      have cs: "arr_at h c = Some cs" using Cons.prems(2) cs0 by (rule arr_at_mono)
      have el: "\<forall>y \<in> set cs. \<exists>m. read_list k h0 [y] = Some [m]"
        using read_list_elements [OF chv] by blast
      have "\<forall>y \<in> set cs. obj_at h y \<noteq> None"
      proof
        fix y assume "y \<in> set cs"
        with el obtain m where "read_list k h0 [y] = Some [m]" by blast
        then obtain oy where "obj_at h0 y = Some oy" using read_list_obj by blast
        with Cons.prems(2) show "obj_at h y \<noteq> None" by (simp add: obj_at_mono)
      qed
      from filter_h_total [OF this, of p] obtain kept
        where kept: "filter_h h p cs = Some kept" and sub: "set kept \<subseteq> set cs" by blast
      obtain h1 newNodes where na: "new_arr kept h = (h1, newNodes)" by (cases "new_arr kept h")
      have le1: "heap_le h0 h1" using Cons.prems(2) heap_le_new_arr [OF na] by (rule heap_le_trans)
      from el sub have "\<forall>y \<in> set kept. \<exists>m. read_list k h0 [y] = Some [m]" by blast
      from Suc.IH [OF this le1, of ] obtain h2 zs2
        where dm: "delete_map k h1 kept p = Some (h2, zs2)" by blast
      obtain h3 c' where res: "new_arr zs2 h2 = (h3, c')" by (cases "new_arr zs2 h2")
      have del: "deleteNodeByPath_h (Suc k) h c p = Some (h3, c')"
        using cs kept na dm res by simp
      obtain h4 x' where no: "new_obj (ob\<lparr> o_children := Some c' \<rparr>) h3 = (h4, x')"
        by (cases "new_obj (ob\<lparr> o_children := Some c' \<rparr>) h3")
      have "heap_le h h3" using del by (rule deleteNodeByPath_h_frame)
      then have "heap_le h0 h4"
        using Cons.prems(2) heap_le_new_obj [OF no] by (blast intro: heap_le_trans)
      from Cons.IH [OF rest this] obtain h' zs
        where "delete_map (Suc k) h4 ys p = Some (h', zs)" by blast
      with ob True c del no show ?thesis by auto
    qed
  qed
qed

lemma deleteNodeByPath_h_total:
  assumes "read_nodes k h a = Some v"
  shows "\<exists>h' r. deleteNodeByPath_h (Suc k) h a p = Some (h', r)"
proof -
  from assms obtain xs where xs: "arr_at h a = Some xs" and v: "read_list k h xs = Some v"
    by (auto simp: read_nodes_def split: option.splits)
  have el: "\<forall>y \<in> set xs. \<exists>m. read_list k h [y] = Some [m]"
    using read_list_elements [OF v] by blast
  then have "\<forall>y \<in> set xs. obj_at h y \<noteq> None" using read_list_obj by fastforce
  from filter_h_total [OF this, of p] obtain kept
    where kept: "filter_h h p xs = Some kept" and sub: "set kept \<subseteq> set xs" by blast
  obtain h1 newNodes where na: "new_arr kept h = (h1, newNodes)" by (cases "new_arr kept h")
  from el sub have "\<forall>y \<in> set kept. \<exists>m. read_list k h [y] = Some [m]" by blast
  from delete_map_total [OF this heap_le_new_arr [OF na]] obtain h2 zs
    where dm: "delete_map k h1 kept p = Some (h2, zs)" by blast
  obtain h3 r where "new_arr zs h2 = (h3, r)" by (cases "new_arr zs h2")
  with xs kept na dm show ?thesis by simp
qed

subsection \<open>The deep copy is fresh\<close>

lemma same_below_refl [simp]: "same_below Lo La h h"
  by (simp add: same_below_def)

lemma same_below_trans:
  "same_below Lo La h h' \<Longrightarrow> same_below Lo La h' h'' \<Longrightarrow> same_below Lo La h h''"
  by (simp add: same_below_def)

lemma heap_le_same_below:
  "heap_le h h' \<Longrightarrow> Lo \<le> length (objs h) \<Longrightarrow> La \<le> length (arrs h) \<Longrightarrow> same_below Lo La h h'"
  by (auto simp: heap_le_def same_below_def prefix_def)

lemma heap_le_length:
  "heap_le h h' \<Longrightarrow> length (objs h) \<le> length (objs h') \<and> length (arrs h) \<le> length (arrs h')"
  by (auto simp: heap_le_def prefix_def)

lemma fresh_invD:
  assumes "fresh_inv Lo La h"
  shows "Lo \<le> length (objs h)" and "La \<le> length (arrs h)"
    and "\<And>a x. La \<le> a \<Longrightarrow> a < length (arrs h) \<Longrightarrow> x \<in> set (arrs h ! a) \<Longrightarrow>
           Lo \<le> x \<and> x < length (objs h)"
    and "\<And>x c. Lo \<le> x \<Longrightarrow> x < length (objs h) \<Longrightarrow> o_children (objs h ! x) = Some c \<Longrightarrow>
           La \<le> c \<and> c < length (arrs h)"
  using assms unfolding fresh_inv_def by blast+

lemma fresh_invI:
  assumes "Lo \<le> length (objs h)" and "La \<le> length (arrs h)"
    and "\<And>a x. La \<le> a \<Longrightarrow> a < length (arrs h) \<Longrightarrow> x \<in> set (arrs h ! a) \<Longrightarrow>
           Lo \<le> x \<and> x < length (objs h)"
    and "\<And>x c. Lo \<le> x \<Longrightarrow> x < length (objs h) \<Longrightarrow> o_children (objs h ! x) = Some c \<Longrightarrow>
           La \<le> c \<and> c < length (arrs h)"
  shows "fresh_inv Lo La h"
  using assms unfolding fresh_inv_def by blast

lemma fresh_new_arr:
  assumes f: "fresh_inv Lo La h" and xs: "\<forall>x \<in> set xs. Lo \<le> x \<and> x < length (objs h)"
    and n: "new_arr xs h = (h', a)"
  shows "fresh_inv Lo La h'" and "La \<le> a" and "a < length (arrs h')"
    and "objs h' = objs h" and "arr_at h' a = Some xs"
proof -
  note D = fresh_invD [OF f]
  from n have ho: "objs h' = objs h" and ha: "arrs h' = arrs h @ [xs]"
    and a: "a = length (arrs h)"
    by (auto simp: new_arr_def)
  from D(2) show "La \<le> a" by (simp add: a)
  show "a < length (arrs h')" by (simp add: a ha)
  show "objs h' = objs h" by (rule ho)
  show "arr_at h' a = Some xs" by (simp add: arr_at_def a ha)
  show "fresh_inv Lo La h'"
  proof (rule fresh_invI)
    show "Lo \<le> length (objs h')" using D(1) by (simp add: ho)
    show "La \<le> length (arrs h')" using D(2) by (simp add: ha)
  next
    fix b x assume b: "La \<le> b" "b < length (arrs h')" and x: "x \<in> set (arrs h' ! b)"
    have "Lo \<le> x \<and> x < length (objs h)"
    proof (cases "b < length (arrs h)")
      case True
      with x have "x \<in> set (arrs h ! b)" by (simp add: ha nth_append)
      with D(3) b(1) True show ?thesis by blast
    next
      case False
      with b(2) have "b = length (arrs h)" by (simp add: ha)
      with x have "x \<in> set xs" by (simp add: ha)
      with xs show ?thesis by blast
    qed
    then show "Lo \<le> x \<and> x < length (objs h')" by (simp add: ho)
  next
    fix x c assume x: "Lo \<le> x" "x < length (objs h')" and c: "o_children (objs h' ! x) = Some c"
    from x c have "x < length (objs h)" "o_children (objs h ! x) = Some c"
      by (simp_all add: ho)
    with D(4) x(1) have "La \<le> c \<and> c < length (arrs h)" by blast
    then show "La \<le> c \<and> c < length (arrs h')" by (simp add: ha)
  qed
qed

lemma fresh_new_obj:
  assumes f: "fresh_inv Lo La h"
    and ch: "\<forall>c. o_children ob = Some c \<longrightarrow> La \<le> c \<and> c < length (arrs h)"
    and n: "new_obj ob h = (h', x)"
  shows "fresh_inv Lo La h'" and "Lo \<le> x" and "x < length (objs h')"
    and "arrs h' = arrs h" and "obj_at h' x = Some ob"
proof -
  note D = fresh_invD [OF f]
  from n have ho: "objs h' = objs h @ [ob]" and ha: "arrs h' = arrs h"
    and x: "x = length (objs h)"
    by (auto simp: new_obj_def)
  from D(1) show "Lo \<le> x" by (simp add: x)
  show "x < length (objs h')" by (simp add: x ho)
  show "arrs h' = arrs h" by (rule ha)
  show "obj_at h' x = Some ob" by (simp add: obj_at_def x ho)
  show "fresh_inv Lo La h'"
  proof (rule fresh_invI)
    show "Lo \<le> length (objs h')" using D(1) by (simp add: ho)
    show "La \<le> length (arrs h')" using D(2) by (simp add: ha)
  next
    fix b y assume b: "La \<le> b" "b < length (arrs h')" and y: "y \<in> set (arrs h' ! b)"
    then have "b < length (arrs h)" "y \<in> set (arrs h ! b)" by (simp_all add: ha)
    with D(3) b(1) have "Lo \<le> y \<and> y < length (objs h)" by blast
    then show "Lo \<le> y \<and> y < length (objs h')" by (simp add: ho)
  next
    fix y c assume y: "Lo \<le> y" "y < length (objs h')" and c: "o_children (objs h' ! y) = Some c"
    have "La \<le> c \<and> c < length (arrs h)"
    proof (cases "y < length (objs h)")
      case True
      with c have "o_children (objs h ! y) = Some c" by (simp add: ho nth_append)
      with D(4) y(1) True show ?thesis by blast
    next
      case False
      with y(2) have "y = length (objs h)" by (simp add: ho)
      with c have "o_children ob = Some c" by (simp add: ho)
      with ch show ?thesis by blast
    qed
    then show "La \<le> c \<and> c < length (arrs h')" by (simp add: ha)
  qed
qed

lemma fresh_set_obj:
  assumes f: "fresh_inv Lo La h" and x: "Lo \<le> x"
    and ch: "\<forall>c. o_children ob = Some c \<longrightarrow> La \<le> c \<and> c < length (arrs h)"
  shows "fresh_inv Lo La (set_obj x ob h)" and "same_below Lo La h (set_obj x ob h)"
    and "arrs (set_obj x ob h) = arrs h" and "length (objs (set_obj x ob h)) = length (objs h)"
proof -
  note D = fresh_invD [OF f]
  define h' where "h' = set_obj x ob h"
  have ho: "objs h' = (objs h)[x := ob]" and ha: "arrs h' = arrs h"
    by (simp_all add: h'_def set_obj_def)
  show "same_below Lo La h (set_obj x ob h)"
    unfolding h'_def [symmetric] using x by (simp add: same_below_def ho ha)
  show "arrs (set_obj x ob h) = arrs h" unfolding h'_def [symmetric] by (rule ha)
  show "length (objs (set_obj x ob h)) = length (objs h)"
    unfolding h'_def [symmetric] by (simp add: ho)
  show "fresh_inv Lo La (set_obj x ob h)"
    unfolding h'_def [symmetric]
  proof (rule fresh_invI)
    show "Lo \<le> length (objs h')" using D(1) by (simp add: ho)
    show "La \<le> length (arrs h')" using D(2) by (simp add: ha)
  next
    fix b y assume b: "La \<le> b" "b < length (arrs h')" and y: "y \<in> set (arrs h' ! b)"
    then have "b < length (arrs h)" "y \<in> set (arrs h ! b)" by (simp_all add: ha)
    with D(3) b(1) have "Lo \<le> y \<and> y < length (objs h)" by blast
    then show "Lo \<le> y \<and> y < length (objs h')" by (simp add: ho)
  next
    fix y c assume y: "Lo \<le> y" "y < length (objs h')" and c: "o_children (objs h' ! y) = Some c"
    from y(2) have yl: "y < length (objs h)" by (simp add: ho)
    have "La \<le> c \<and> c < length (arrs h)"
    proof (cases "y = x")
      case True
      with c yl have "o_children ob = Some c" by (simp add: ho)
      with ch show ?thesis by blast
    next
      case False
      with c have "o_children (objs h ! y) = Some c" by (simp add: ho)
      with D(4) y(1) yl show ?thesis by blast
    qed
    then show "La \<le> c \<and> c < length (arrs h')" by (simp add: ha)
  qed
qed

lemma fresh_set_arr:
  assumes f: "fresh_inv Lo La h" and a: "La \<le> a"
    and xs: "\<forall>x \<in> set xs. Lo \<le> x \<and> x < length (objs h)"
  shows "fresh_inv Lo La (set_arr a xs h)" and "same_below Lo La h (set_arr a xs h)"
    and "objs (set_arr a xs h) = objs h" and "length (arrs (set_arr a xs h)) = length (arrs h)"
proof -
  note D = fresh_invD [OF f]
  define h' where "h' = set_arr a xs h"
  have ho: "objs h' = objs h" and ha: "arrs h' = (arrs h)[a := xs]"
    by (simp_all add: h'_def set_arr_def)
  show "same_below Lo La h (set_arr a xs h)"
    unfolding h'_def [symmetric] using a by (simp add: same_below_def ho ha)
  show "objs (set_arr a xs h) = objs h" unfolding h'_def [symmetric] by (rule ho)
  show "length (arrs (set_arr a xs h)) = length (arrs h)"
    unfolding h'_def [symmetric] by (simp add: ha)
  show "fresh_inv Lo La (set_arr a xs h)"
    unfolding h'_def [symmetric]
  proof (rule fresh_invI)
    show "Lo \<le> length (objs h')" using D(1) by (simp add: ho)
    show "La \<le> length (arrs h')" using D(2) by (simp add: ha)
  next
    fix b y assume b: "La \<le> b" "b < length (arrs h')" and y: "y \<in> set (arrs h' ! b)"
    from b(2) have bl: "b < length (arrs h)" by (simp add: ha)
    have "Lo \<le> y \<and> y < length (objs h)"
    proof (cases "b = a")
      case True
      with y bl have "y \<in> set xs" by (simp add: ha)
      with xs show ?thesis by blast
    next
      case False
      with y have "y \<in> set (arrs h ! b)" by (simp add: ha)
      with D(3) b(1) bl show ?thesis by blast
    qed
    then show "Lo \<le> y \<and> y < length (objs h')" by (simp add: ho)
  next
    fix y c assume y: "Lo \<le> y" "y < length (objs h')" and c: "o_children (objs h' ! y) = Some c"
    then have "y < length (objs h)" "o_children (objs h ! y) = Some c" by (simp_all add: ho)
    with D(4) y(1) have "La \<le> c \<and> c < length (arrs h)" by blast
    then show "La \<le> c \<and> c < length (arrs h')" by (simp add: ha)
  qed
qed

lemma fresh_inv_start: "fresh_inv (length (objs h)) (length (arrs h)) h"
  by (rule fresh_invI) simp_all

lemma alloc_list_fresh:
  "fresh_inv Lo La h \<Longrightarrow> alloc_list v h = (h', xs) \<Longrightarrow>
   fresh_inv Lo La h' \<and> heap_le h h' \<and> (\<forall>x \<in> set xs. Lo \<le> x \<and> x < length (objs h'))"
proof (induction v h arbitrary: h' xs rule: alloc_list.induct)
  case (1 h)
  then show ?case by simp
next
  case (2 nm ty pa ch co rest h)
  define step where "step = (case ch of
               None \<Rightarrow> (h, None)
             | Some cs \<Rightarrow>
                 (let (h', xs) = alloc_list cs h;
                      (h'', c) = new_arr xs h'
                  in (h'', Some c)))"
  obtain h1 cref where s: "step = (h1, cref)" by (cases step)
  have s1: "fresh_inv Lo La h1 \<and> heap_le h h1
          \<and> (\<forall>c. cref = Some c \<longrightarrow> La \<le> c \<and> c < length (arrs h1))"
  proof (cases ch)
    case None
    with s "2.prems"(1) show ?thesis by (simp add: step_def)
  next
    case (Some cs)
    obtain ha ys where a: "alloc_list cs h = (ha, ys)" by (cases "alloc_list cs h")
    obtain hb c where b: "new_arr ys ha = (hb, c)" by (cases "new_arr ys ha")
    from s Some a b have e: "h1 = hb" "cref = Some c" by (simp_all add: step_def)
    from "2.IH"(1) [OF Some "2.prems"(1) a]
    have fa: "fresh_inv Lo La ha" and la: "heap_le h ha"
      and ya: "\<forall>x \<in> set ys. Lo \<le> x \<and> x < length (objs ha)" by simp_all
    from fresh_new_arr [OF fa ya b] heap_le_new_arr [OF b] la e show ?thesis
      by (auto intro: heap_le_trans)
  qed
  define ob where "ob = \<lparr> o_name = nm, o_type = ty, o_path = pa, o_children = cref,
                              o_content = co \<rparr>"
  obtain h2 x where n: "new_obj ob h1 = (h2, x)" by (cases "new_obj ob h1")
  obtain h3 zs where r: "alloc_list rest h2 = (h3, zs)" by (cases "alloc_list rest h2")
  from "2.prems"(2) s n r have res: "h' = h3" "xs = x # zs"
    by (simp_all add: step_def [symmetric] ob_def [symmetric])
  from s1 have oc: "\<forall>c. o_children ob = Some c \<longrightarrow> La \<le> c \<and> c < length (arrs h1)"
    by (simp add: ob_def)
  from s1 have f1: "fresh_inv Lo La h1" by simp
  from fresh_new_obj [OF f1 oc n]
  have f2: "fresh_inv Lo La h2" and x: "Lo \<le> x" "x < length (objs h2)" by simp_all
  from "2.IH"(2) [OF refl s [unfolded step_def, symmetric] refl
                     n [unfolded ob_def, symmetric] f2 r]
  have f3: "fresh_inv Lo La h3" and l3: "heap_le h2 h3"
    and z: "\<forall>x \<in> set zs. Lo \<le> x \<and> x < length (objs h3)" by simp_all
  from s1 heap_le_new_obj [OF n] l3 have "heap_le h h3" by (blast intro: heap_le_trans)
  moreover from x heap_le_length [OF l3] have "Lo \<le> x \<and> x < length (objs h3)" by simp
  ultimately show ?case using f3 z res by simp
qed

subsection \<open>\<open>addOrUpdateFileByPath\<close> writes to the copy only\<close>

lemma find_obj_total:
  "\<forall>x \<in> set xs. x < length (objs h) \<Longrightarrow>
   \<exists>r. find_obj h P xs = Some r \<and> (\<forall>x. r = Some x \<longrightarrow> x \<in> set xs)"
  by (induction xs) (auto simp: obj_at_def)

lemma same_below_new_arr:
  "fresh_inv Lo La h \<Longrightarrow> new_arr xs h = (h', a) \<Longrightarrow> same_below Lo La h h'"
  using heap_le_same_below [OF heap_le_new_arr] fresh_invD(1,2) by blast

lemma same_below_new_obj:
  "fresh_inv Lo La h \<Longrightarrow> new_obj ob h = (h', x) \<Longrightarrow> same_below Lo La h h'"
  using heap_le_same_below [OF heap_le_new_obj] fresh_invD(1,2) by blast

lemma fresh_arr_elements:
  assumes f: "fresh_inv Lo La h" and a: "La \<le> a" "a < length (arrs h)"
  shows "arr_at h a = Some (arrs h ! a)"
    and "\<forall>x \<in> set (arrs h ! a). Lo \<le> x \<and> x < length (objs h)"
  using fresh_invD(3) [OF f a] a by (auto simp: arr_at_def)

lemma fresh_obj_children:
  assumes f: "fresh_inv Lo La h" and x: "Lo \<le> x" "x < length (objs h)"
  shows "obj_at h x = Some (objs h ! x)"
    and "\<forall>c. o_children (objs h ! x) = Some c \<longrightarrow> La \<le> c \<and> c < length (arrs h)"
  using fresh_invD(4) [OF f x] x by (auto simp: obj_at_def)

lemma upsert_h_loop_frame:
  "fresh_inv Lo La h \<Longrightarrow> La \<le> cur \<Longrightarrow> cur < length (arrs h) \<Longrightarrow>
   \<exists>h'. upsert_h_loop parts fileName newContent cp cur h = Some h' \<and> same_below Lo La h h'"
proof (induction parts arbitrary: cp cur h)
  case Nil
  note f = Nil.prems(1)
  define xs where "xs = arrs h ! cur"
  from fresh_arr_elements [OF Nil.prems]
  have arr: "arr_at h cur = Some xs"
    and el: "\<forall>x \<in> set xs. Lo \<le> x \<and> x < length (objs h)" by (simp_all add: xs_def)
  from el have "\<forall>x \<in> set xs. x < length (objs h)" by blast
  from find_obj_total [OF this, of "\<lambda>node. o_name node = fileName"]
  obtain r where r: "find_obj h (\<lambda>node. o_name node = fileName) xs = Some r"
    and rx: "\<forall>x. r = Some x \<longrightarrow> x \<in> set xs" by blast
  show ?case
  proof (cases r)
    case None
    define ob where "ob = \<lparr> o_name = fileName, o_type = File,
                                        o_path = cp @ ''/'' @ fileName,
                                        o_children = None, o_content = Some newContent \<rparr>"
    obtain h1 x where n: "new_obj ob h = (h1, x)" by (cases "new_obj ob h")
    have oc: "\<forall>c. o_children ob = Some c \<longrightarrow> La \<le> c \<and> c < length (arrs h)"
      by (simp add: ob_def)
    from fresh_new_obj [OF f oc n]
    have f1: "fresh_inv Lo La h1" and x: "Lo \<le> x" "x < length (objs h1)" by simp_all
    from heap_le_length [OF heap_le_new_obj [OF n]] el x
    have el1: "\<forall>y \<in> set (xs @ [x]). Lo \<le> y \<and> y < length (objs h1)" by auto
    from fresh_set_arr(2) [OF f1 Nil.prems(2) el1] same_below_new_obj [OF f n]
    have "same_below Lo La h (set_arr cur (xs @ [x]) h1)" by (blast intro: same_below_trans)
    moreover have "upsert_h_loop [] fileName newContent cp cur h
        = Some (set_arr cur (xs @ [x]) h1)"
      using arr r None n unfolding ob_def by simp
    ultimately show ?thesis by blast
  next
    case (Some x)
    with rx el have x: "Lo \<le> x" "x < length (objs h)" by auto
    define node where "node = objs h ! x"
    from fresh_obj_children [OF f x]
    have ob: "obj_at h x = Some node"
      and oc: "\<forall>c. o_children node = Some c \<longrightarrow> La \<le> c \<and> c < length (arrs h)"
      by (simp_all add: node_def)
    from oc have "\<forall>c. o_children (node\<lparr> o_content := Some newContent \<rparr>) = Some c
                    \<longrightarrow> La \<le> c \<and> c < length (arrs h)" by simp
    from fresh_set_obj(2) [OF f x(1) this]
    have "same_below Lo La h (set_obj x (node\<lparr> o_content := Some newContent \<rparr>) h)" .
    moreover have "upsert_h_loop [] fileName newContent cp cur h
        = Some (set_obj x (node\<lparr> o_content := Some newContent \<rparr>) h)"
      using arr r Some ob by simp
    ultimately show ?thesis by blast
  qed
next
  case (Cons part parts)
  note f = Cons.prems(1)
  define cp' where "cp' = cp @ ''/'' @ part"
  define xs where "xs = arrs h ! cur"
  from fresh_arr_elements [OF Cons.prems]
  have arr: "arr_at h cur = Some xs"
    and el: "\<forall>x \<in> set xs. Lo \<le> x \<and> x < length (objs h)" by (simp_all add: xs_def)
  from el have "\<forall>x \<in> set xs. x < length (objs h)" by blast
  from find_obj_total [OF this, of "\<lambda>node. o_name node = part \<and> o_type node = Folder"]
  obtain r where r: "find_obj h (\<lambda>node. o_name node = part \<and> o_type node = Folder) xs = Some r"
    and rx: "\<forall>x. r = Some x \<longrightarrow> x \<in> set xs" by blast
  show ?case
  proof (cases r)
    case None
    obtain h1 c where na: "new_arr [] h = (h1, c)" by (cases "new_arr [] h")
    from fresh_new_arr [OF f _ na]
    have f1: "fresh_inv Lo La h1" and c: "La \<le> c" "c < length (arrs h1)"
      and o1: "objs h1 = objs h" by simp_all
    define ob where "ob = \<lparr> o_name = part, o_type = Folder, o_path = cp', o_children = Some c,
                           o_content = None \<rparr>"
    obtain h2 x where n: "new_obj ob h1 = (h2, x)" by (cases "new_obj ob h1")
    have oc: "\<forall>d. o_children ob = Some d \<longrightarrow> La \<le> d \<and> d < length (arrs h1)"
      using c by (simp add: ob_def)
    from fresh_new_obj [OF f1 oc n]
    have f2: "fresh_inv Lo La h2" and x: "Lo \<le> x" "x < length (objs h2)"
      and a2: "arrs h2 = arrs h1" by simp_all
    from heap_le_length [OF heap_le_new_obj [OF n]] el x o1
    have el2: "\<forall>y \<in> set (xs @ [x]). Lo \<le> y \<and> y < length (objs h2)" by auto
    define h3 where "h3 = set_arr cur (xs @ [x]) h2"
    from fresh_set_arr [OF f2 Cons.prems(2) el2]
    have f3: "fresh_inv Lo La h3" and s3: "same_below Lo La h2 h3"
      and l3: "length (arrs h3) = length (arrs h2)" by (simp_all add: h3_def)
    from c a2 l3 have c3: "c < length (arrs h3)" by simp
    from Cons.IH [OF f3 c(1) c3, of cp'] obtain h'
      where u: "upsert_h_loop parts fileName newContent cp' c h3 = Some h'"
        and s: "same_below Lo La h3 h'" by blast
    from same_below_new_arr [OF f na] same_below_new_obj [OF f1 n] s3 s
    have "same_below Lo La h h'" by (blast intro: same_below_trans)
    moreover have "upsert_h_loop (part # parts) fileName newContent cp cur h = Some h'"
      using arr r None na n u unfolding ob_def cp'_def h3_def
      by (simp add: Let_def)
    ultimately show ?thesis by blast
  next
    case (Some x)
    with rx el have x: "Lo \<le> x" "x < length (objs h)" by auto
    define folder where "folder = objs h ! x"
    from fresh_obj_children [OF f x]
    have ob: "obj_at h x = Some folder"
      and oc: "\<forall>c. o_children folder = Some c \<longrightarrow> La \<le> c \<and> c < length (arrs h)"
      by (simp_all add: folder_def)
    show ?thesis
    proof (cases "o_children folder")
      case (Some c)
      with oc have c: "La \<le> c" "c < length (arrs h)" by simp_all
      from Cons.IH [OF f c, of cp'] obtain h'
        where u: "upsert_h_loop parts fileName newContent cp' c h = Some h'"
          and s: "same_below Lo La h h'" by blast
      have "upsert_h_loop (part # parts) fileName newContent cp cur h = Some h'"
        using arr r \<open>r = Some x\<close> ob Some u unfolding cp'_def by (simp add: Let_def)
      with s show ?thesis by blast
    next
      case None
      obtain h1 c where na: "new_arr [] h = (h1, c)" by (cases "new_arr [] h")
      from fresh_new_arr [OF f _ na]
      have f1: "fresh_inv Lo La h1" and c: "La \<le> c" "c < length (arrs h1)" by simp_all
      define h2 where "h2 = set_obj x (folder\<lparr> o_children := Some c \<rparr>) h1"
      have "\<forall>d. o_children (folder\<lparr> o_children := Some c \<rparr>) = Some d
                \<longrightarrow> La \<le> d \<and> d < length (arrs h1)" using c by simp
      from fresh_set_obj [OF f1 x(1) this]
      have f2: "fresh_inv Lo La h2" and s2: "same_below Lo La h1 h2"
        and a2: "arrs h2 = arrs h1" by (simp_all add: h2_def)
      from c a2 have c2: "c < length (arrs h2)" by simp
      from Cons.IH [OF f2 c(1) c2, of cp'] obtain h'
        where u: "upsert_h_loop parts fileName newContent cp' c h2 = Some h'"
          and s: "same_below Lo La h2 h'" by blast
      from same_below_new_arr [OF f na] s2 s
      have "same_below Lo La h h'" by (blast intro: same_below_trans)
      moreover have "upsert_h_loop (part # parts) fileName newContent cp cur h = Some h'"
        using arr r \<open>r = Some x\<close> ob None na u unfolding cp'_def h2_def
        by (simp add: Let_def)
      ultimately show ?thesis by blast
    qed
  qed
qed

lemma alloc_list_heap_le: "alloc_list v h = (h', xs) \<Longrightarrow> heap_le h h'"
  using alloc_list_fresh [OF fresh_inv_start] by blast

lemma same_below_heap_le:
  assumes le: "heap_le h h1"
    and sb: "same_below (length (objs h)) (length (arrs h)) h1 h'"
  shows "heap_le h h'"
proof -
  from le have "take (length (objs h)) (objs h1) = objs h"
    and "take (length (arrs h)) (arrs h1) = arrs h"
    by (auto simp: heap_le_def prefix_def)
  with sb have "take (length (objs h)) (objs h') = objs h"
    and "take (length (arrs h)) (arrs h') = arrs h"
    by (simp_all add: same_below_def)
  then have "prefix (objs h) (objs h')" and "prefix (arrs h) (arrs h')"
    by (metis take_is_prefix)+
  then show ?thesis by (simp add: heap_le_def)
qed

lemma alloc_nodes_fresh:
  assumes "alloc_nodes v h = (h1, a)"
  shows "fresh_inv (length (objs h)) (length (arrs h)) h1"
    and "length (arrs h) \<le> a" and "a < length (arrs h1)" and "heap_le h h1"
    and "\<exists>xs. arr_at h1 a = Some xs
            \<and> (\<forall>x \<in> set xs. length (objs h) \<le> x \<and> x < length (objs h1))"
proof -
  obtain ha xs where al: "alloc_list v h = (ha, xs)" by (cases "alloc_list v h")
  with assms have na: "new_arr xs ha = (h1, a)" by (simp add: alloc_nodes_def)
  from alloc_list_fresh [OF fresh_inv_start al]
  have fa: "fresh_inv (length (objs h)) (length (arrs h)) ha" and la: "heap_le h ha"
    and el: "\<forall>x \<in> set xs. length (objs h) \<le> x \<and> x < length (objs ha)" by simp_all
  from fresh_new_arr [OF fa el na]
  show "fresh_inv (length (objs h)) (length (arrs h)) h1"
    and "length (arrs h) \<le> a" and "a < length (arrs h1)" by simp_all
  from la heap_le_new_arr [OF na] show "heap_le h h1" by (rule heap_le_trans)
  from fresh_new_arr(4,5) [OF fa el na] el
  show "\<exists>xs. arr_at h1 a = Some xs
            \<and> (\<forall>x \<in> set xs. length (objs h) \<le> x \<and> x < length (objs h1))"
    by auto
qed

lemma addOrUpdateFileByPath_h_frame:
  assumes "read_nodes k h a = Some v"
  shows "\<exists>h' r. addOrUpdateFileByPath_h k h a p c = Some (h', r) \<and> heap_le h h'
           \<and> length (arrs h) \<le> r"
proof -
  obtain h1 ns where al: "alloc_nodes v h = (h1, ns)" by (cases "alloc_nodes v h")
  note F = alloc_nodes_fresh [OF al]
  show ?thesis
  proof (cases "pathParts p = []")
    case True
    with assms al F(2,4) show ?thesis by (simp add: addOrUpdateFileByPath_h_def)
  next
    case False
    from upsert_h_loop_frame [OF F(1,2,3), of "butlast (pathParts p)" "last (pathParts p)" c "[]"]
    obtain h' where u: "upsert_h_loop (butlast (pathParts p)) (last (pathParts p)) c [] ns h1 = Some h'"
      and s: "same_below (length (objs h)) (length (arrs h)) h1 h'" by blast
    from same_below_heap_le [OF F(4) s] have "heap_le h h'" .
    moreover from assms al False u
    have "addOrUpdateFileByPath_h k h a p c = Some (h', ns)"
      by (simp add: addOrUpdateFileByPath_h_def Let_def)
    ultimately show ?thesis using F(2) by blast
  qed
qed

lemma find_h_range:
  "fresh_inv Lo La h \<Longrightarrow> \<forall>x \<in> set xs. Lo \<le> x \<and> x < length (objs h) \<Longrightarrow>
   find_h k h xs p = Some (Some y) \<Longrightarrow> Lo \<le> y \<and> y < length (objs h)"
proof (induction k h xs p rule: find_h.induct)
  case (1 h xs p)
  then show ?case by simp
next
  case (2 k h p)
  then show ?case by simp
next
  case (3 k h x xs p)
  from "3.prems"(3) obtain node where node: "obj_at h x = Some node"
    by (auto split: option.splits)
  from "3.prems"(2) have x: "Lo \<le> x" "x < length (objs h)"
    and rest: "\<forall>x \<in> set xs. Lo \<le> x \<and> x < length (objs h)" by simp_all
  from node x have nd: "node = objs h ! x" by (simp add: obj_at_def)
  show ?case
  proof (cases "o_path node = p")
    case True
    with "3.prems"(3) node x show ?thesis by simp
  next
    case ne: False
    show ?thesis
    proof (cases "o_type node = Folder \<and> o_children node \<noteq> None \<and> prefix (o_path node @ ''/'') p")
      case True
      then obtain c where c: "o_children node = Some c" by auto
      with "3.prems"(3) node ne True obtain cs where cs: "arr_at h c = Some cs"
        by (auto split: option.splits)
      from fresh_invD(4) [OF "3.prems"(1) x] c nd have cr: "La \<le> c" "c < length (arrs h)" by simp_all
      from cs cr have "cs = arrs h ! c" by (simp add: arr_at_def)
      with fresh_invD(3) [OF "3.prems"(1) cr]
      have el: "\<forall>x \<in> set cs. Lo \<le> x \<and> x < length (objs h)" by blast
      from c cs have csf: "arr_at h (the (o_children node)) = Some cs" by simp
      show ?thesis
      proof (cases "find_h k h cs p")
        case None
        with "3.prems"(3) node ne True c cs show ?thesis by simp
      next
        case (Some r)
        show ?thesis
        proof (cases r)
          case None
          with Some "3.prems"(3) node ne True c cs have "find_h (Suc k) h xs p = Some (Some y)"
            by simp
          from "3.IH"(2) [OF node ne True csf \<open>find_h k h cs p = Some r\<close> None
                             "3.prems"(1) rest this]
          show ?thesis .
        next
          case (Some found)
          with \<open>find_h k h cs p = Some r\<close> "3.prems"(3) node ne True c cs
          have "find_h k h cs p = Some (Some y)" by simp
          from "3.IH"(1) [OF node ne True csf "3.prems"(1) el this] show ?thesis .
        qed
      qed
    next
      case False
      with "3.prems"(3) node ne have "find_h (Suc k) h xs p = Some (Some y)" by auto
      from "3.IH"(3) [OF node ne False "3.prems"(1) rest this] show ?thesis .
    qed
  qed
qed

subsection \<open>\<open>addNodeToTree\<close> writes to the copy only\<close>

lemma read_list_Cons:
  assumes "read_list (Suc k) h (x # xs) = Some v"
  shows "\<exists>ob ch vs. obj_at h x = Some ob
    \<and> v = FileNode (o_name ob) (o_type ob) (o_path ob) ch (o_content ob) # vs
    \<and> read_list (Suc k) h xs = Some vs
    \<and> (o_children ob = None \<longrightarrow> ch = None)
    \<and> (\<forall>c. o_children ob = Some c \<longrightarrow>
           (\<exists>cs chv. arr_at h c = Some cs \<and> read_list k h cs = Some chv \<and> ch = Some chv))"
proof -
  from assms obtain ob where ob: "obj_at h x = Some ob" by (auto split: option.splits)
  show ?thesis
  proof (cases "o_children ob")
    case None
    with assms ob obtain vs where "read_list (Suc k) h xs = Some vs"
      and "v = FileNode (o_name ob) (o_type ob) (o_path ob) None (o_content ob) # vs"
      by auto
    with ob None show ?thesis
      by (intro exI [of _ ob] exI [of _ None] exI [of _ vs]) simp
  next
    case (Some c)
    with assms ob obtain cs where cs: "arr_at h c = Some cs" by (auto split: option.splits)
    with assms ob Some obtain chv where chv: "read_list k h cs = Some chv"
      by (auto split: option.splits)
    with assms ob Some cs obtain vs where "read_list (Suc k) h xs = Some vs"
      and "v = FileNode (o_name ob) (o_type ob) (o_path ob) (Some chv) (o_content ob) # vs"
      by auto
    with ob Some cs chv show ?thesis
      by (intro exI [of _ ob] exI [of _ "Some chv"] exI [of _ vs]) simp
  qed
qed

lemma find_h_agrees:
  "read_list k h xs = Some v \<Longrightarrow>
   \<exists>r. find_h k h xs p = Some r \<and> find_agrees h r (findFileByPath v p)"
proof (induction k h xs arbitrary: v rule: read_list.induct)
  case (1 h xs)
  then show ?case by simp
next
  case (2 k h)
  then show ?case by (simp add: find_agrees_def)
next
  case (3 k h x xs)
  from read_list_Cons [OF "3.prems"] obtain ob ch vs where ob: "obj_at h x = Some ob"
    and v: "v = FileNode (o_name ob) (o_type ob) (o_path ob) ch (o_content ob) # vs"
    and vs: "read_list (Suc k) h xs = Some vs"
    and chN: "o_children ob = None \<longrightarrow> ch = None"
    and chS': "\<forall>c. o_children ob = Some c \<longrightarrow>
           (\<exists>cs chv. arr_at h c = Some cs \<and> read_list k h cs = Some chv \<and> ch = Some chv)"
    by (elim exE conjE) (rule that)
  have chS: "\<exists>cs chv. arr_at h c = Some cs \<and> read_list k h cs = Some chv \<and> ch = Some chv"
    if "o_children ob = Some c" for c using chS' that by blast
  have tail: "\<exists>r. find_h (Suc k) h xs p = Some r \<and> find_agrees h r (findFileByPath vs p)"
  proof (cases "o_children ob")
    case None
    from "3.IH"(2) [OF ob _ vs] None show ?thesis by simp
  next
    case (Some c)
    from chS [OF Some] obtain cs chv where "arr_at h c = Some cs" "read_list k h cs = Some chv"
      by blast
    with "3.IH"(2) [OF ob _ vs] Some show ?thesis by simp
  qed
  show ?case
  proof (cases "o_path ob = p")
    case True
    with ob v show ?thesis by (simp add: find_agrees_def)
  next
    case ne: False
    show ?thesis
    proof (cases "o_type ob = Folder \<and> o_children ob \<noteq> None \<and> prefix (o_path ob @ ''/'') p")
      case False
      have "ch \<noteq> None \<longleftrightarrow> o_children ob \<noteq> None"
        using chN chS by (cases "o_children ob") auto
      with False ne ob v tail show ?thesis by auto
    next
      case True
      then obtain c where c: "o_children ob = Some c" by auto
      from chS [OF c] obtain cs chv where cs: "arr_at h c = Some cs"
        and chv: "read_list k h cs = Some chv" and ch: "ch = Some chv" by blast
      from "3.IH"(1) [OF ob c cs chv] obtain r1
        where r1: "find_h k h cs p = Some r1"
          and a1: "find_agrees h r1 (findFileByPath chv p)" by blast
      show ?thesis
      proof (cases r1)
        case None
        with a1 have "findFileByPath chv p = None" by (simp add: find_agrees_def)
        with None r1 ne True c cs ch ob v tail show ?thesis by simp
      next
        case (Some y)
        with a1 obtain node where "findFileByPath chv p = Some node" by (auto simp: find_agrees_def)
        with Some a1 r1 ne True c cs ch ob v show ?thesis by simp
      qed
    qed
  qed
qed

lemma alloc_list_read:
  "read_list k h xs = Some v \<Longrightarrow> alloc_list v h0 = (h1, ys) \<Longrightarrow> read_list k h1 ys = Some v"
proof (induction k h xs arbitrary: v h0 h1 ys rule: read_list.induct)
  case (1 h xs)
  then show ?case by simp
next
  case (2 k h)
  then show ?case by simp
next
  case (3 k h x xs)
  from read_list_Cons [OF "3.prems"(1)] obtain ob ch vs where ob: "obj_at h x = Some ob"
    and v: "v = FileNode (o_name ob) (o_type ob) (o_path ob) ch (o_content ob) # vs"
    and vs: "read_list (Suc k) h xs = Some vs"
    and chN: "o_children ob = None \<longrightarrow> ch = None"
    and chS': "\<forall>c. o_children ob = Some c \<longrightarrow>
           (\<exists>cs chv. arr_at h c = Some cs \<and> read_list k h cs = Some chv \<and> ch = Some chv)"
    by (elim exE conjE) (rule that)
  have chS: "\<exists>cs chv. arr_at h c = Some cs \<and> read_list k h cs = Some chv \<and> ch = Some chv"
    if "o_children ob = Some c" for c using chS' that by blast
  define step where "step = (case ch of
               None \<Rightarrow> (h0, None)
             | Some cs \<Rightarrow>
                 (let (h', xs) = alloc_list cs h0;
                      (h'', c) = new_arr xs h'
                  in (h'', Some c)))"
  obtain ha cref where s: "step = (ha, cref)" by (cases step)
  define ob' where "ob' = \<lparr> o_name = o_name ob, o_type = o_type ob, o_path = o_path ob,
                             o_children = cref, o_content = o_content ob \<rparr>"
  obtain h2 x' where n: "new_obj ob' ha = (h2, x')" by (cases "new_obj ob' ha")
  obtain h3 zs where r: "alloc_list vs h2 = (h3, zs)" by (cases "alloc_list vs h2")
  from "3.prems"(2) v s n r have res: "h1 = h3" "ys = x' # zs"
    by (simp_all add: step_def [symmetric] ob'_def [symmetric])
  have le23: "heap_le h2 h3" using r by (rule alloc_list_heap_le)
  have oa: "obj_at h2 x' = Some ob'" using n by (auto simp: new_obj_def obj_at_def)
  then have ob3: "obj_at h3 x' = Some ob'" using le23 by (simp add: obj_at_mono)
  have tail: "read_list (Suc k) h3 zs = Some vs"
  proof (cases "o_children ob")
    case None
    from "3.IH"(2) [OF ob _ vs r] None show ?thesis by simp
  next
    case (Some c)
    from chS [OF Some] obtain cs chv where "arr_at h c = Some cs" "read_list k h cs = Some chv"
      by blast
    with "3.IH"(2) [OF ob _ vs r] Some show ?thesis by simp
  qed
  have child: "(case cref of
                   None \<Rightarrow> Some None
                 | Some c \<Rightarrow>
                     (case arr_at h3 c of
                        None \<Rightarrow> None
                      | Some cs \<Rightarrow> map_option Some (read_list k h3 cs))) = Some ch"
  proof (cases "o_children ob")
    case None
    with chN have "ch = None" by simp
    with s show ?thesis by (simp add: step_def)
  next
    case (Some c)
    from chS [OF Some] obtain cs chv where cs: "arr_at h c = Some cs"
      and chv: "read_list k h cs = Some chv" and ch: "ch = Some chv" by blast
    obtain hb cys where a: "alloc_list chv h0 = (hb, cys)" by (cases "alloc_list chv h0")
    obtain hc c' where b: "new_arr cys hb = (hc, c')" by (cases "new_arr cys hb")
    from s ch a b have e: "ha = hc" "cref = Some c'" by (simp_all add: step_def)
    have r1: "read_list k hb cys = Some chv" using "3.IH"(1) [OF ob Some cs chv a] .
    have "heap_le hb h3"
      using heap_le_new_arr [OF b] heap_le_new_obj [OF n] le23 e by (blast intro: heap_le_trans)
    from read_list_mono [OF r1 this] have r3: "read_list k h3 cys = Some chv" .
    have "arr_at hc c' = Some cys" using b by (auto simp: new_arr_def arr_at_def)
    moreover have "heap_le hc h3" using heap_le_new_obj [OF n] le23 e by (blast intro: heap_le_trans)
    ultimately have "arr_at h3 c' = Some cys" by (simp add: arr_at_mono)
    with r3 e ch show ?thesis by simp
  qed
  from ob3 child tail v show ?case unfolding res by (simp add: ob'_def)
qed

lemma same_below_set_obj: "Lo \<le> x \<Longrightarrow> same_below Lo La h (set_obj x ob h)"
  by (simp add: same_below_def set_obj_def)

lemma same_below_set_arr: "La \<le> a \<Longrightarrow> same_below Lo La h (set_arr a xs h)"
  by (simp add: same_below_def set_arr_def)

lemma new_node_h_frame:
  assumes "new_node_h nodeName ty p h = (h', x)"
  shows "heap_le h h'"
proof (cases "ty = Folder")
  case True
  obtain h1 c where a: "new_arr [] h = (h1, c)" by (cases "new_arr [] h")
  with assms True
  have "new_obj \<lparr> o_name = nodeName, o_type = ty, o_path = p,
                   o_children = Some c, o_content = None \<rparr> h1 = (h', x)"
    by (simp add: new_node_h_def)
  from heap_le_new_arr [OF a] heap_le_new_obj [OF this] show ?thesis by (rule heap_le_trans)
next
  case False
  with assms show ?thesis by (simp add: new_node_h_def heap_le_new_obj)
qed

lemma push_h_frame:
  assumes "La \<le> c" and "c < length (arrs h)"
  shows "\<exists>h'. push_h c x h = Some h' \<and> same_below Lo La h h'"
  using assms by (simp add: push_h_def arr_at_def same_below_set_arr)

lemma ensure_children_frame:
  assumes f: "fresh_inv Lo La h" and pn: "Lo \<le> pn" "pn < length (objs h)"
    and ob: "obj_at h pn = Some ob" and e: "ensure_children pn ob h = (h', c)"
  shows "same_below Lo La h h'" and "La \<le> c" and "c < length (arrs h')"
    and "Lo \<le> length (objs h')" and "La \<le> length (arrs h')"
proof -
  note D = fresh_invD [OF f]
  from ob pn have obn: "ob = objs h ! pn" by (simp add: obj_at_def)
  have "same_below Lo La h h' \<and> La \<le> c \<and> c < length (arrs h')
        \<and> Lo \<le> length (objs h') \<and> La \<le> length (arrs h')"
  proof (cases "o_children ob")
    case (Some c')
    with e have eq: "h' = h" "c' = c" by (simp_all add: ensure_children_def)
    from D(4) [OF pn] Some obn eq have "La \<le> c \<and> c < length (arrs h)" by simp
    with eq D(1,2) show ?thesis by simp
  next
    case None
    obtain ha c' where a: "new_arr [] h = (ha, c')" by (cases "new_arr [] h")
    with e None have eq: "h' = set_obj pn (ob\<lparr> o_children := Some c' \<rparr>) ha" "c' = c"
      by (auto simp: ensure_children_def)
    from a have ha: "objs ha = objs h" "arrs ha = arrs h @ [[]]" "c' = length (arrs h)"
      by (auto simp: new_arr_def)
    have s1: "same_below Lo La h ha" using f a by (rule same_below_new_arr)
    have s2: "same_below Lo La ha h'" unfolding eq using pn(1) by (rule same_below_set_obj)
    have l: "length (objs h') = length (objs h)" "length (arrs h') = Suc (length (arrs h))"
      unfolding eq by (simp_all add: set_obj_def ha)
    from same_below_trans [OF s1 s2] ha(3) eq(2) D(1,2) l show ?thesis by simp
  qed
  then show "same_below Lo La h h'" and "La \<le> c" and "c < length (arrs h')"
    and "Lo \<le> length (objs h')" and "La \<le> length (arrs h')" by simp_all
qed

lemma add_under_parent_frame:
  assumes f: "fresh_inv Lo La h1"
    and roots: "\<forall>x \<in> set roots. Lo \<le> x \<and> x < length (objs h1)"
    and rd: "read_list k h1 roots = Some v"
  shows "\<exists>h' r. add_under_parent k h1 roots ns pp nm ty np = Some (h', r)
           \<and> same_below Lo La h1 h'
           \<and> (if \<exists>n. findFileByPath v pp = Some n \<and> type n = Folder
              then r = Inr ns else r = Inl (JsError (parent_not_found_message pp)))"
proof -
  from find_h_agrees [OF rd, of pp] obtain r2 where r2: "find_h k h1 roots pp = Some r2"
    and ag: "find_agrees h1 r2 (findFileByPath v pp)" by blast
  show ?thesis
  proof (cases r2)
    case None
    with ag have "findFileByPath v pp = None" by (simp add: find_agrees_def)
    with None r2 show ?thesis by (simp add: add_under_parent_def)
  next
    case (Some pn)
    with ag obtain node ob where node: "findFileByPath v pp = Some node"
      and ob: "obj_at h1 pn = Some ob" and ty: "o_type ob = type node"
      by (auto simp: find_agrees_def)
    from find_h_range [OF f roots] r2 Some have pn: "Lo \<le> pn" "pn < length (objs h1)"
      by simp_all
    show ?thesis
    proof (cases "type node = Folder")
      case False
      with Some r2 node ob ty show ?thesis by (simp add: add_under_parent_def)
    next
      case True
      obtain h2 c where e: "ensure_children pn ob h1 = (h2, c)"
        by (cases "ensure_children pn ob h1")
      note E = ensure_children_frame [OF f pn ob e]
      obtain h3 x where n: "new_node_h nm ty np h2 = (h3, x)"
        by (cases "new_node_h nm ty np h2")
      from new_node_h_frame [OF n] have le: "heap_le h2 h3" .
      from heap_le_same_below [OF le E(4,5)] have s23: "same_below Lo La h2 h3" .
      from heap_le_length [OF le] E(3) have "c < length (arrs h3)" by simp
      from push_h_frame [OF E(2) this] obtain h4 where p: "push_h c x h3 = Some h4"
        and s34: "same_below Lo La h3 h4" by blast
      have "same_below Lo La h1 h4"
        using same_below_trans [OF same_below_trans [OF E(1) s23] s34] .
      moreover have "add_under_parent k h1 roots ns pp nm ty np = Some (h4, Inr ns)"
        using Some r2 ob ty True e n p by (simp add: add_under_parent_def)
      ultimately show ?thesis using node True by simp
    qed
  qed
qed

lemma alloc_nodes_read:
  assumes r: "read_nodes k h a = Some v" and al: "alloc_nodes v h = (h1, ns)"
  shows "\<exists>roots. arr_at h1 ns = Some roots \<and> read_list k h1 roots = Some v
           \<and> (\<forall>x \<in> set roots. length (objs h) \<le> x \<and> x < length (objs h1))"
proof -
  from r obtain xs where v: "read_list k h xs = Some v"
    by (auto simp: read_nodes_def split: option.splits)
  obtain ha roots where a: "alloc_list v h = (ha, roots)" by (cases "alloc_list v h")
  with al have na: "new_arr roots ha = (h1, ns)" by (simp add: alloc_nodes_def)
  from alloc_list_read [OF v a] have "read_list k ha roots = Some v" .
  from read_list_mono [OF this heap_le_new_arr [OF na]]
  have rd: "read_list k h1 roots = Some v" .
  from na have at: "arr_at h1 ns = Some roots" by (auto simp: new_arr_def arr_at_def)
  from alloc_nodes_fresh(5) [OF al] at
  have "\<forall>x \<in> set roots. length (objs h) \<le> x \<and> x < length (objs h1)" by simp
  with at rd show ?thesis by simp
qed

lemma read_nodes_bound: "read_nodes k h a = Some v \<Longrightarrow> a < length (arrs h)"
  by (auto simp: read_nodes_def arr_at_def split: option.splits if_splits)

lemma deleteNodeByPath_h_new:
  assumes "deleteNodeByPath_h j g a q = Some (g', r)"
  shows "length (arrs g) \<le> r"
proof (cases j)
  case 0
  with assms show ?thesis by simp
next
  case (Suc k)
  with assms obtain xs where xs: "arr_at g a = Some xs" by (auto split: option.splits)
  with assms Suc obtain kept where kept: "filter_h g q xs = Some kept"
    by (auto split: option.splits)
  obtain h1 n where n: "new_arr kept g = (h1, n)" by (cases "new_arr kept g")
  with assms Suc xs kept obtain h2 ys where dm: "delete_map k h1 kept q = Some (h2, ys)"
    by (auto split: option.splits)
  with assms Suc xs kept n have "new_arr ys h2 = (g', r)" by simp
  then have "r = length (arrs h2)" by (auto simp: new_arr_def)
  with heap_le_length [OF heap_le_new_arr [OF n]] heap_le_length [OF delete_map_frame [OF dm]]
  show ?thesis by simp
qed

lemma addNodeToTree_h_frame:
  assumes r: "read_nodes k h a = Some v"
  shows "\<exists>h' r. addNodeToTree_h k h a pp nm ty = Some (h', r) \<and> heap_le h h'
           \<and> raises_like r (addNodeToTree v pp nm ty)
           \<and> (\<forall>t. r = Inr t \<longrightarrow> length (arrs h) \<le> t)"
proof -
  obtain h1 ns where al: "alloc_nodes v h = (h1, ns)" by (cases "alloc_nodes v h")
  note F = alloc_nodes_fresh [OF al]
  from alloc_nodes_read [OF r al] obtain roots where at: "arr_at h1 ns = Some roots"
    and rd: "read_list k h1 roots = Some v"
    and el: "\<forall>x \<in> set roots. length (objs h) \<le> x \<and> x < length (objs h1)" by blast
  define np where "np = (if pp = ''/'' then ''/'' @ nm else pp @ ''/'' @ nm)"
  from find_h_agrees [OF rd, of np] obtain r1 where r1: "find_h k h1 roots np = Some r1"
    and ag: "find_agrees h1 r1 (findFileByPath v np)" by blast
  have unf: "addNodeToTree_h k h a pp nm ty =
     (case find_h k h1 roots np of
        None \<Rightarrow> None
      | Some (Some existing) \<Rightarrow> Some (h1, Inl (JsError (already_exists_message ty nm)))
      | Some None \<Rightarrow>
          if pp = ''/''
          then (let (h2, x) = new_node_h nm ty np h1
                in map_option (\<lambda>h3. (h3, Inr ns)) (push_h ns x h2))
          else add_under_parent k h1 roots ns pp nm ty np)"
    unfolding addNodeToTree_h_def np_def Let_def using r al at by simp
  have punf: "addNodeToTree v pp nm ty =
     (if findFileByPath v np \<noteq> None
      then Inl (JsError (already_exists_message ty nm))
      else if pp = ''/''
      then Inr (v @ [new_node nm ty np])
      else (case findFileByPath v pp of
              Some parentNode \<Rightarrow>
                if type parentNode = Folder
                then Inr (modifyFound
                            (\<lambda>pn. set_children pn
                               ((case children pn of None \<Rightarrow> [] | Some cs \<Rightarrow> cs)
                                  @ [new_node nm ty np]))
                            v pp)
                else Inl (JsError (parent_not_found_message pp))
            | None \<Rightarrow> Inl (JsError (parent_not_found_message pp))))"
    unfolding addNodeToTree_def np_def Let_def by simp
  show ?thesis
  proof (cases r1)
    case (Some existing)
    with ag have "findFileByPath v np \<noteq> None" by (auto simp: find_agrees_def)
    then have "addNodeToTree v pp nm ty = Inl (JsError (already_exists_message ty nm))"
      unfolding punf by simp
    moreover have "addNodeToTree_h k h a pp nm ty
                   = Some (h1, Inl (JsError (already_exists_message ty nm)))"
      unfolding unf using r al at r1 Some by simp
    ultimately show ?thesis using F(4) by (simp add: raises_like_def)
  next
    case None
    with ag have nf: "findFileByPath v np = None" by (simp add: find_agrees_def)
    show ?thesis
    proof (cases "pp = ''/''")
      case True
      obtain h2 x where n: "new_node_h nm ty np h1 = (h2, x)"
        by (cases "new_node_h nm ty np h1")
      from new_node_h_frame [OF n] have le: "heap_le h1 h2" .
      from heap_le_length [OF le] F(3) have "ns < length (arrs h2)" by simp
      from push_h_frame [OF F(2) this] obtain h3 where p: "push_h ns x h2 = Some h3"
        and s: "same_below (length (objs h)) (length (arrs h)) h2 h3" by blast
      from same_below_heap_le [OF heap_le_trans [OF F(4) le] s] have "heap_le h h3" .
      moreover have "addNodeToTree_h k h a pp nm ty = Some (h3, Inr ns)"
        unfolding unf using r al at r1 None True n p by simp
      moreover have "\<exists>w. addNodeToTree v pp nm ty = Inr w"
        unfolding punf using nf True by simp
      ultimately show ?thesis using F(2) by (simp add: raises_like_def)
    next
      case False
      from add_under_parent_frame [OF F(1) el rd, of ns pp nm ty np]
      obtain h' r' where u: "add_under_parent k h1 roots ns pp nm ty np = Some (h', r')"
        and s: "same_below (length (objs h)) (length (arrs h)) h1 h'"
        and c: "if \<exists>n. findFileByPath v pp = Some n \<and> type n = Folder
                then r' = Inr ns else r' = Inl (JsError (parent_not_found_message pp))"
        by blast
      from same_below_heap_le [OF F(4) s] have "heap_le h h'" .
      moreover have "addNodeToTree_h k h a pp nm ty = Some (h', r')"
        unfolding unf using r al at r1 None False u by simp
      moreover have "raises_like r' (addNodeToTree v pp nm ty)"
      proof (cases "\<exists>n. findFileByPath v pp = Some n \<and> type n = Folder")
        case True
        with c nf False show ?thesis
          unfolding punf by (auto simp: raises_like_def)
      next
        case nt: False
        with c have "r' = Inl (JsError (parent_not_found_message pp))" by simp
        moreover from nt nf False
        have "addNodeToTree v pp nm ty = Inl (JsError (parent_not_found_message pp))"
          unfolding punf by (auto split: option.splits)
        ultimately show ?thesis using F(2) by (simp add: raises_like_def)
      qed
      moreover have "\<forall>t. r' = Inr t \<longrightarrow> length (arrs h) \<le> t"
        using c F(2) by (auto split: if_splits)
      ultimately show ?thesis by blast
    qed
  qed
qed

subsection \<open>The three mutators\<close>

text \<open>
  C9. Whatever object store the input tree lives in, as long as the reference \<open>nodes\<close>
  denotes a tree value \<open>v\<close> there: each of \<open>addOrUpdateFileByPath\<close>, \<open>deleteNodeByPath\<close> and
  \<open>addNodeToTree\<close> returns (or throws, for \<open>addNodeToTree\<close>), every object and array that
  existed before the call is afterwards as it was, so the input still denotes \<open>v\<close>, and a
  tree that is returned is a new array, not the input.
\<close>

theorem mutators_leave_input_unchanged:
  assumes "read_nodes k h nodes = Some v"
  shows "(\<exists>h' r. addOrUpdateFileByPath_h k h nodes p newContent = Some (h', r)
            \<and> heap_le h h' \<and> read_nodes k h' nodes = Some v \<and> r \<noteq> nodes)
       \<and> (\<exists>h' r. deleteNodeByPath_h (Suc k) h nodes p = Some (h', r)
            \<and> heap_le h h' \<and> read_nodes k h' nodes = Some v \<and> r \<noteq> nodes)
       \<and> (\<exists>h' r. addNodeToTree_h k h nodes parentPath nodeName ty = Some (h', r)
            \<and> heap_le h h' \<and> read_nodes k h' nodes = Some v \<and> r \<noteq> Inr nodes)"
proof (intro conjI)
  note b = read_nodes_bound [OF assms]
  from addOrUpdateFileByPath_h_frame [OF assms, of p newContent]
  obtain h' r where c: "addOrUpdateFileByPath_h k h nodes p newContent = Some (h', r)"
    and le: "heap_le h h'" and n: "length (arrs h) \<le> r" by blast
  from read_nodes_mono [OF assms le] b n c le
  show "\<exists>h' r. addOrUpdateFileByPath_h k h nodes p newContent = Some (h', r)
            \<and> heap_le h h' \<and> read_nodes k h' nodes = Some v \<and> r \<noteq> nodes"
    by auto
next
  note b = read_nodes_bound [OF assms]
  from deleteNodeByPath_h_total [OF assms, of p]
  obtain h' r where c: "deleteNodeByPath_h (Suc k) h nodes p = Some (h', r)" by blast
  from deleteNodeByPath_h_frame [OF c] have le: "heap_le h h'" .
  from deleteNodeByPath_h_new [OF c] have n: "length (arrs h) \<le> r" .
  from read_nodes_mono [OF assms le] b n c le
  show "\<exists>h' r. deleteNodeByPath_h (Suc k) h nodes p = Some (h', r)
            \<and> heap_le h h' \<and> read_nodes k h' nodes = Some v \<and> r \<noteq> nodes"
    by auto
next
  note b = read_nodes_bound [OF assms]
  from addNodeToTree_h_frame [OF assms, of parentPath nodeName ty]
  obtain h' r where c: "addNodeToTree_h k h nodes parentPath nodeName ty = Some (h', r)"
    and le: "heap_le h h'" and n: "\<forall>t. r = Inr t \<longrightarrow> length (arrs h) \<le> t" by blast
  from n b have "r \<noteq> Inr nodes" by auto
  with read_nodes_mono [OF assms le] c le
  show "\<exists>h' r. addNodeToTree_h k h nodes parentPath nodeName ty = Some (h', r)
            \<and> heap_le h h' \<and> read_nodes k h' nodes = Some v \<and> r \<noteq> Inr nodes"
    by auto
qed

theorem mutators_leave_input_unchanged_witness:
  "read_nodes (Suc (Suc (Suc 0)))
     \<lparr> objs = [\<lparr> o_name = ''src'', o_type = Folder, o_path = ''/src'',
                  o_children = Some 0, o_content = None \<rparr>,
               \<lparr> o_name = ''App.tsx'', o_type = File, o_path = ''/src/App.tsx'',
                  o_children = None, o_content = Some ''old'' \<rparr>],
        arrs = [[Suc 0], [0]] \<rparr> (Suc 0)
     = Some [FileNode ''src'' Folder ''/src''
               (Some [FileNode ''App.tsx'' File ''/src/App.tsx'' None (Some ''old'')]) None]
   \<and> (\<exists>h' r. addOrUpdateFileByPath_h (Suc (Suc (Suc 0)))
               \<lparr> objs = [\<lparr> o_name = ''src'', o_type = Folder, o_path = ''/src'',
                            o_children = Some 0, o_content = None \<rparr>,
                         \<lparr> o_name = ''App.tsx'', o_type = File, o_path = ''/src/App.tsx'',
                            o_children = None, o_content = Some ''old'' \<rparr>],
                  arrs = [[Suc 0], [0]] \<rparr> (Suc 0) ''/src/App.tsx'' ''new'' = Some (h', r)
            \<and> read_nodes (Suc (Suc (Suc 0))) h' (Suc 0)
                = Some [FileNode ''src'' Folder ''/src''
                          (Some [FileNode ''App.tsx'' File ''/src/App.tsx'' None (Some ''old'')])
                          None]
            \<and> r \<noteq> Suc 0)
   \<and> (\<exists>h' r. deleteNodeByPath_h (Suc (Suc (Suc (Suc 0))))
               \<lparr> objs = [\<lparr> o_name = ''src'', o_type = Folder, o_path = ''/src'',
                            o_children = Some 0, o_content = None \<rparr>,
                         \<lparr> o_name = ''App.tsx'', o_type = File, o_path = ''/src/App.tsx'',
                            o_children = None, o_content = Some ''old'' \<rparr>],
                  arrs = [[Suc 0], [0]] \<rparr> (Suc 0) ''/src/App.tsx'' = Some (h', r)
            \<and> read_nodes (Suc (Suc (Suc 0))) h' (Suc 0)
                = Some [FileNode ''src'' Folder ''/src''
                          (Some [FileNode ''App.tsx'' File ''/src/App.tsx'' None (Some ''old'')])
                          None]
            \<and> r \<noteq> Suc 0)
   \<and> (\<exists>h' r. addNodeToTree_h (Suc (Suc (Suc 0)))
               \<lparr> objs = [\<lparr> o_name = ''src'', o_type = Folder, o_path = ''/src'',
                            o_children = Some 0, o_content = None \<rparr>,
                         \<lparr> o_name = ''App.tsx'', o_type = File, o_path = ''/src/App.tsx'',
                            o_children = None, o_content = Some ''old'' \<rparr>],
                  arrs = [[Suc 0], [0]] \<rparr> (Suc 0) ''/src'' ''main.tsx'' File = Some (h', r)
            \<and> read_nodes (Suc (Suc (Suc 0))) h' (Suc 0)
                = Some [FileNode ''src'' Folder ''/src''
                          (Some [FileNode ''App.tsx'' File ''/src/App.tsx'' None (Some ''old'')])
                          None]
            \<and> r \<noteq> Inr (Suc 0))"
proof -
  have r: "read_nodes (Suc (Suc (Suc 0)))
     \<lparr> objs = [\<lparr> o_name = ''src'', o_type = Folder, o_path = ''/src'',
                  o_children = Some 0, o_content = None \<rparr>,
               \<lparr> o_name = ''App.tsx'', o_type = File, o_path = ''/src/App.tsx'',
                  o_children = None, o_content = Some ''old'' \<rparr>],
        arrs = [[Suc 0], [0]] \<rparr> (Suc 0)
     = Some [FileNode ''src'' Folder ''/src''
               (Some [FileNode ''App.tsx'' File ''/src/App.tsx'' None (Some ''old'')]) None]"
    by (simp add: read_nodes_def arr_at_def obj_at_def)
  from mutators_leave_input_unchanged [OF r, of "''/src/App.tsx''" "''new''" "''/src''"
         "''main.tsx''" File] r
  show ?thesis by blast
qed

text \<open>
  C7, as the code has it. For every tree, parent path, name and type, \<open>addNodeToTree\<close>
  returns or throws, and the input tree is afterwards as it was (after a throw as after a
  return). In a tree that satisfies the invariants of the data model, for a name without a
  slash and an absolute parent path, it throws the already-exists error exactly when the
  parent path is \<open>/\<close> or names a folder of the tree and one of the nodes there has the name.
\<close>

theorem addNodeToTree_duplicate_iff_sibling_input_unchanged:
  assumes "read_nodes k h nodes = Some v"
  shows "\<exists>h' r. addNodeToTree_h k h nodes parentPath nodeName ty = Some (h', r)
           \<and> read_nodes k h' nodes = Some v
           \<and> (wf_tree v \<and> CHR ''/'' \<notin> set nodeName \<and> prefix ''/'' parentPath \<longrightarrow>
                (r = Inl (JsError (already_exists_message ty nodeName))
                   \<longleftrightarrow> sibling_exists v parentPath nodeName))"
proof -
  from addNodeToTree_h_frame [OF assms(1), of parentPath nodeName ty]
  obtain h' r where c: "addNodeToTree_h k h nodes parentPath nodeName ty = Some (h', r)"
    and le: "heap_le h h'"
    and rl: "raises_like r (addNodeToTree v parentPath nodeName ty)" by blast
  from rl have e: "r = Inl (JsError (already_exists_message ty nodeName))
                \<longleftrightarrow> addNodeToTree v parentPath nodeName ty
                    = Inl (JsError (already_exists_message ty nodeName))"
    by (cases r) (auto simp: raises_like_def)
  have "r = Inl (JsError (already_exists_message ty nodeName))
          \<longleftrightarrow> sibling_exists v parentPath nodeName"
    if "wf_tree v \<and> CHR ''/'' \<notin> set nodeName \<and> prefix ''/'' parentPath"
  proof -
    from that have w: "wf_tree v" and n: "CHR ''/'' \<notin> set nodeName"
      and p: "prefix ''/'' parentPath" by simp_all
    note e
    also have "addNodeToTree v parentPath nodeName ty
                    = Inl (JsError (already_exists_message ty nodeName))
               \<longleftrightarrow> sibling_exists v parentPath nodeName"
      using w n p by (rule addNodeToTree_duplicate_iff_sibling)
    finally show ?thesis .
  qed
  with c read_nodes_mono [OF assms(1) le] show ?thesis by blast
qed

theorem addNodeToTree_duplicate_iff_sibling_input_unchanged_witness:
  "\<exists>h'. addNodeToTree_h (Suc (Suc (Suc 0)))
          \<lparr> objs = [\<lparr> o_name = ''src'', o_type = Folder, o_path = ''/src'',
                       o_children = Some 0, o_content = None \<rparr>,
                    \<lparr> o_name = ''App.tsx'', o_type = File, o_path = ''/src/App.tsx'',
                       o_children = None, o_content = Some ''old'' \<rparr>],
             arrs = [[Suc 0], [0]] \<rparr> (Suc 0) ''/src'' ''App.tsx'' File
        = Some (h', Inl (JsError (already_exists_message File ''App.tsx'')))
      \<and> read_nodes (Suc (Suc (Suc 0))) h' (Suc 0)
          = Some [FileNode ''src'' Folder ''/src''
                    (Some [FileNode ''App.tsx'' File ''/src/App.tsx'' None (Some ''old'')]) None]"
proof -
  have r: "read_nodes (Suc (Suc (Suc 0)))
     \<lparr> objs = [\<lparr> o_name = ''src'', o_type = Folder, o_path = ''/src'',
                  o_children = Some 0, o_content = None \<rparr>,
               \<lparr> o_name = ''App.tsx'', o_type = File, o_path = ''/src/App.tsx'',
                  o_children = None, o_content = Some ''old'' \<rparr>],
        arrs = [[Suc 0], [0]] \<rparr> (Suc 0)
     = Some [FileNode ''src'' Folder ''/src''
               (Some [FileNode ''App.tsx'' File ''/src/App.tsx'' None (Some ''old'')]) None]"
    by (simp add: read_nodes_def arr_at_def obj_at_def)
  have w: "wf_tree [FileNode ''src'' Folder ''/src''
               (Some [FileNode ''App.tsx'' File ''/src/App.tsx'' None (Some ''old'')]) None]"
    by (simp add: wf_tree_def wf_nodes.simps join_path_def)
  have s: "sibling_exists [FileNode ''src'' Folder ''/src''
               (Some [FileNode ''App.tsx'' File ''/src/App.tsx'' None (Some ''old'')]) None]
             ''/src'' ''App.tsx''"
    by (simp add: sibling_exists_def childrenAt_def)
  from addNodeToTree_duplicate_iff_sibling_input_unchanged
         [OF r, of "''/src''" "''App.tsx''" File] w s
  show ?thesis by auto
qed

text \<open>
  C7 as stated fails outside the invariants of the data model, because the code looks for
  the path \<open>parentPath/name\<close> in the tree and not for the name among the children of the
  parent. \<open>buildStructureFromAiFiles\<close> builds such a tree from the AI file \<open>src/main.tsx\<close>: the
  folder gets the path \<open>/src\<close>, the file keeps the path \<open>src/main.tsx\<close>. Adding \<open>main.tsx\<close>
  under \<open>/src\<close> then finds no node with the path \<open>/src/main.tsx\<close> and puts a second
  \<open>main.tsx\<close> next to the first, with no error.
\<close>

theorem addNodeToTree_relative_path_counterexample:
  "sibling_exists
     [FileNode ''src'' Folder ''/src''
        (Some [FileNode ''main.tsx'' File ''src/main.tsx'' None (Some ''x'')]) None]
     ''/src'' ''main.tsx''
   \<and> addNodeToTree
       [FileNode ''src'' Folder ''/src''
          (Some [FileNode ''main.tsx'' File ''src/main.tsx'' None (Some ''x'')]) None]
       ''/src'' ''main.tsx'' File
     = Inr [FileNode ''src'' Folder ''/src''
              (Some [FileNode ''main.tsx'' File ''src/main.tsx'' None (Some ''x''),
                     FileNode ''main.tsx'' File ''/src/main.tsx'' None (Some [])]) None]
   \<and> (\<exists>h' t. addNodeToTree_h (Suc (Suc (Suc 0)))
          \<lparr> objs = [\<lparr> o_name = ''src'', o_type = Folder, o_path = ''/src'',
                       o_children = Some 0, o_content = None \<rparr>,
                    \<lparr> o_name = ''main.tsx'', o_type = File, o_path = ''src/main.tsx'',
                       o_children = None, o_content = Some ''x'' \<rparr>],
             arrs = [[Suc 0], [0]] \<rparr> (Suc 0) ''/src'' ''main.tsx'' File
        = Some (h', Inr t))"
proof -
  have r: "read_nodes (Suc (Suc (Suc 0)))
     \<lparr> objs = [\<lparr> o_name = ''src'', o_type = Folder, o_path = ''/src'',
                  o_children = Some 0, o_content = None \<rparr>,
               \<lparr> o_name = ''main.tsx'', o_type = File, o_path = ''src/main.tsx'',
                  o_children = None, o_content = Some ''x'' \<rparr>],
        arrs = [[Suc 0], [0]] \<rparr> (Suc 0)
     = Some [FileNode ''src'' Folder ''/src''
               (Some [FileNode ''main.tsx'' File ''src/main.tsx'' None (Some ''x'')]) None]"
    by (simp add: read_nodes_def arr_at_def obj_at_def)
  have p: "addNodeToTree
       [FileNode ''src'' Folder ''/src''
          (Some [FileNode ''main.tsx'' File ''src/main.tsx'' None (Some ''x'')]) None]
       ''/src'' ''main.tsx'' File
     = Inr [FileNode ''src'' Folder ''/src''
              (Some [FileNode ''main.tsx'' File ''src/main.tsx'' None (Some ''x''),
                     FileNode ''main.tsx'' File ''/src/main.tsx'' None (Some [])]) None]"
    by (simp add: addNodeToTree_def new_node_def set_children_def)
  have s: "sibling_exists
     [FileNode ''src'' Folder ''/src''
        (Some [FileNode ''main.tsx'' File ''src/main.tsx'' None (Some ''x'')]) None]
     ''/src'' ''main.tsx''"
    by (simp add: sibling_exists_def childrenAt_def)
  from addNodeToTree_h_frame [OF r, of "''/src''" "''main.tsx''" File]
  obtain h' r' where c: "addNodeToTree_h (Suc (Suc (Suc 0)))
          \<lparr> objs = [\<lparr> o_name = ''src'', o_type = Folder, o_path = ''/src'',
                       o_children = Some 0, o_content = None \<rparr>,
                    \<lparr> o_name = ''main.tsx'', o_type = File, o_path = ''src/main.tsx'',
                       o_children = None, o_content = Some ''x'' \<rparr>],
             arrs = [[Suc 0], [0]] \<rparr> (Suc 0) ''/src'' ''main.tsx'' File
        = Some (h', r')"
    and rl: "raises_like r'
       (addNodeToTree
          [FileNode ''src'' Folder ''/src''
             (Some [FileNode ''main.tsx'' File ''src/main.tsx'' None (Some ''x'')]) None]
          ''/src'' ''main.tsx'' File)"
    by blast
  from rl obtain t where "r' = Inr t" unfolding p by (cases r') (auto simp: raises_like_def)
  with c have "\<exists>h' t. addNodeToTree_h (Suc (Suc (Suc 0)))
          \<lparr> objs = [\<lparr> o_name = ''src'', o_type = Folder, o_path = ''/src'',
                       o_children = Some 0, o_content = None \<rparr>,
                    \<lparr> o_name = ''main.tsx'', o_type = File, o_path = ''src/main.tsx'',
                       o_children = None, o_content = Some ''x'' \<rparr>],
             arrs = [[Suc 0], [0]] \<rparr> (Suc 0) ''/src'' ''main.tsx'' File
        = Some (h', Inr t)"
    by blast
  with s p show ?thesis by blast
qed

end
